theory Spec2Isabelle
  imports Main "HOL-Library.Word"
begin

unbundle bit_operations_syntax

section \<open>The poller of src/onion/poller.c\<close>

text \<open>
  The embedding follows the build with \<^verbatim>\<open>HAVE_PTHREADS\<close>: the file uses
  \<^verbatim>\<open>pthread_mutex_init\<close>, \<^verbatim>\<open>pthread_mutex_trylock\<close> and the two \<^verbatim>\<open>mutex\<close>
  fields outside of every \<^verbatim>\<open>#ifdef\<close>. C \<^verbatim>\<open>int\<close>s are \<^typ>\<open>int\<close>: the code does no
  arithmetic on them besides \<^verbatim>\<open>n++\<close>, \<^verbatim>\<open>n--\<close>, \<^verbatim>\<open>npollers++\<close> and
  \<^verbatim>\<open>npollers--\<close>. Pointers to functions and to caller data are addresses
  (\<^typ>\<open>nat\<close>), \<open>0\<close> being \<^verbatim>\<open>NULL\<close>.

  Each function is the run of one thread from a given state. A mutex is a flag; a thread
  that calls \<^verbatim>\<open>pthread_mutex_lock\<close> on a held mutex waits, and its run ends there
  (\<open>Blocks\<close>, with the state in which it waits). A callback and a shutdown hook are
  calls into code outside this file: they are recorded, a callback also yields a return
  value, and they do not call back into the poller.
\<close>

subsection \<open>Data\<close>

text \<open>
  \<^verbatim>\<open>struct onion_poller_el_t\<close>. The \<^verbatim>\<open>next\<close> pointer is the order of the list
  \<open>p_head\<close> below; \<open>el_addr\<close> is the address of the node itself (what \<^verbatim>\<open>malloc\<close>
  returned), which is what \<^verbatim>\<open>ev.data.ptr\<close> carries through epoll. \<open>el_mutex\<close> is
  \<open>True\<close> while the mutex of the node is held.
\<close>

record onion_poller_el =
  el_addr :: nat
  el_fd :: int
  el_f :: nat
  el_data :: nat
  el_shutdown :: nat
  el_shutdown_data :: nat
  el_delta_timeout :: int
  el_timeout :: int
  el_mutex :: bool
  el_active :: int

text \<open>\<^verbatim>\<open>struct epoll_event\<close> and the operations of \<^verbatim>\<open>epoll_ctl\<close> (sys/epoll.h).\<close>

record epoll_event =
  ev_events :: "32 word"
  ev_ptr :: nat

datatype epoll_op = EPOLL_CTL_ADD | EPOLL_CTL_DEL | EPOLL_CTL_MOD

definition EPOLLIN :: "32 word" where "EPOLLIN = 0x001"
definition EPOLLHUP :: "32 word" where "EPOLLHUP = 0x010"
definition EPOLLONESHOT :: "32 word" where "EPOLLONESHOT = push_bit 30 1"

definition EBUSY :: int where "EBUSY = 16"

definition MAX_EVENTS :: nat where "MAX_EVENTS = 10"

text \<open>
  What the code does to the world outside the two structs, in the order it does it:
  system calls (with the value they returned where the code reads it), calls through the
  function pointers of an element, and \<^verbatim>\<open>free\<close>.
\<close>

datatype call =
    Epoll_create int int
  | Close int
  | Usleep nat
  | Epoll_wait int nat int
  | Epoll_ctl int epoll_op int "epoll_event option" int
  | Call_f nat nat
  | Call_shutdown nat nat
  | Free_el nat
  | Free_poller

datatype level = DEBUG0 | DEBUG | WARNING | ERROR

text \<open>
  \<^verbatim>\<open>struct onion_poller_t\<close>, followed by the three parts of the world the code acts
  on: the calls made so far, the log lines written so far, and the next address
  \<^verbatim>\<open>malloc\<close> hands out.
\<close>

record onion_poller =
  p_fd :: int
  p_stop :: int
  p_n :: int
  p_mutex :: bool
  p_npollers :: int
  p_head :: "onion_poller_el list"
  calls :: "call list"
  logs :: "(level \<times> string) list"
  brk :: nat

text \<open>
  What the code cannot decide: the value a callback returns and the value
  \<^verbatim>\<open>epoll_ctl\<close> returns. Both may depend on everything that happened before.
\<close>

record env =
  callback :: "nat \<Rightarrow> nat \<Rightarrow> onion_poller \<Rightarrow> int"
  epoll_ctl_ret :: "epoll_op \<Rightarrow> int \<Rightarrow> onion_poller \<Rightarrow> int"

text \<open>
  A call of a function of the poller returns a value in a new state, or stops where the
  thread waits for a mutex that is held or for an \<^verbatim>\<open>epoll_wait\<close> that brings nothing
  more, or dereferences \<^verbatim>\<open>NULL\<close> or a freed node (\<open>Fault\<close>).
\<close>

datatype blocked_on = Poller_mutex | El_mutex nat | In_epoll_wait

datatype 'a outcome = Returns 'a onion_poller | Blocks blocked_on onion_poller | Fault

subsection \<open>Helpers\<close>

text \<open>
  Modelled from the spec: the macros \<^verbatim>\<open>ONION_DEBUG0\<close>, \<^verbatim>\<open>ONION_DEBUG\<close>,
  \<^verbatim>\<open>ONION_WARNING\<close> and \<^verbatim>\<open>ONION_ERROR\<close> of \<^verbatim>\<open>log.h\<close>, which is not among the
  sources. The spec has logging as a sink invoked for its side effect only, with the levels
  debug, warning and error: a call adds one line, the level and the format string, and
  does nothing else.
\<close>

definition log :: "level \<Rightarrow> string \<Rightarrow> onion_poller \<Rightarrow> onion_poller" where
  "log lv msg p = p\<lparr>logs := logs p @ [(lv, msg)]\<rparr>"

definition sys :: "call \<Rightarrow> onion_poller \<Rightarrow> onion_poller" where
  "sys c p = p\<lparr>calls := calls p @ [c]\<rparr>"

definition upd_el :: "nat \<Rightarrow> (onion_poller_el \<Rightarrow> onion_poller_el) \<Rightarrow> onion_poller \<Rightarrow> onion_poller" where
  "upd_el i g p = p\<lparr>p_head := (p_head p)[i := g (p_head p ! i)]\<rparr>"

text \<open>A value of type \<^typ>\<open>onion_poller\<close> stands for a valid pointer: \<^verbatim>\<open>!poller\<close> is false.\<close>

definition is_NULL :: "onion_poller \<Rightarrow> bool" where
  "is_NULL p = False"

subsection \<open>\<^verbatim>\<open>onion_poller_find_fd_and_lock\<close>\<close>

text \<open>
  The \<^verbatim>\<open>while(next)\<close> loop: the position of the first node with the descriptor,
  \<open>None\<close> for \<^verbatim>\<open>NULL\<close>.
\<close>

fun find_fd :: "int \<Rightarrow> onion_poller_el list \<Rightarrow> nat option" where
  "find_fd fd [] = None"
| "find_fd fd (el # els) = (if el_fd el = fd then Some 0 else map_option Suc (find_fd fd els))"

definition onion_poller_find_fd_and_lock :: "onion_poller \<Rightarrow> int \<Rightarrow> nat option outcome" where
  "onion_poller_find_fd_and_lock p fd =
     (if p_mutex p then Blocks Poller_mutex p
      else case find_fd fd (p_head p) of
        None \<Rightarrow> Returns None p
      | Some i \<Rightarrow>
          if el_mutex (p_head p ! i)
          then Blocks (El_mutex (el_addr (p_head p ! i))) (p\<lparr>p_mutex := True\<rparr>)
          else Returns (Some i) (upd_el i (\<lambda>el. el\<lparr>el_mutex := True\<rparr>) p))"

subsection \<open>\<^verbatim>\<open>onion_poller_new\<close>\<close>

text \<open>\<open>efd\<close> is what \<^verbatim>\<open>epoll_create(n)\<close> returned; \<open>None\<close> is the \<^verbatim>\<open>NULL\<close> result.\<close>

definition onion_poller_new :: "int \<Rightarrow> int \<Rightarrow> onion_poller option" where
  "onion_poller_new n efd =
     (if efd < 0 then None
      else Some \<lparr>p_fd = efd, p_stop = 0, p_n = 0, p_mutex = False, p_npollers = 0,
                 p_head = [], calls = [Epoll_create n efd], logs = [], brk = 1\<rparr>)"

subsection \<open>\<^verbatim>\<open>onion_poller_set_shutdown\<close> and \<^verbatim>\<open>onion_poller_set_timeout\<close>\<close>

definition onion_poller_set_shutdown :: "onion_poller \<Rightarrow> int \<Rightarrow> nat \<Rightarrow> nat \<Rightarrow> int outcome" where
  "onion_poller_set_shutdown poller fd f data =
     (case onion_poller_find_fd_and_lock poller fd of
        Blocks b p \<Rightarrow> Blocks b p
      | Fault \<Rightarrow> Fault
      | Returns el p \<Rightarrow>
          if is_NULL p then Returns 0 (log ERROR ''Could not find fd %d'' p)
          else
            let p1 = log DEBUG0 ''Added shutdown callback for fd %d'' p in
            (case el of
               None \<Rightarrow> Fault
             | Some i \<Rightarrow>
                 Returns 1 (upd_el i (\<lambda>e. e\<lparr>el_shutdown := f, el_shutdown_data := data,
                                           el_mutex := False\<rparr>) p1)))"

definition onion_poller_set_timeout :: "onion_poller \<Rightarrow> int \<Rightarrow> int \<Rightarrow> int outcome" where
  "onion_poller_set_timeout poller fd tmo =
     (case onion_poller_find_fd_and_lock poller fd of
        Blocks b p \<Rightarrow> Blocks b p
      | Fault \<Rightarrow> Fault
      | Returns el p \<Rightarrow>
          if is_NULL p then Returns 0 (log ERROR ''Could not find fd %d'' p)
          else
            (case el of
               None \<Rightarrow> Fault
             | Some i \<Rightarrow>
                 Returns 1 (upd_el i (\<lambda>e. e\<lparr>el_timeout := tmo, el_delta_timeout := tmo,
                                           el_mutex := False\<rparr>) p)))"

subsection \<open>\<^verbatim>\<open>onion_poller_add\<close>\<close>

text \<open>
  The new node is appended behind the last one (the \<^verbatim>\<open>while (next->next)\<close> walk), or
  becomes the head of an empty list.
\<close>

definition onion_poller_add :: "onion_poller \<Rightarrow> int \<Rightarrow> nat \<Rightarrow> nat \<Rightarrow> int outcome" where
  "onion_poller_add poller fd f data =
     (let p0 = log DEBUG0 ''Adding fd %d for polling (%d)'' poller;
          nel = \<lparr>el_addr = brk p0, el_fd = fd, el_f = f, el_data = data,
                 el_shutdown = 0, el_shutdown_data = 0,
                 el_delta_timeout = - 1, el_timeout = - 1,
                 el_mutex = False, el_active = 0\<rparr>;
          p1 = p0\<lparr>brk := brk p0 + 1\<rparr>
      in if p_mutex p1 then Blocks Poller_mutex p1
         else Returns 0 (p1\<lparr>p_head := p_head p1 @ [nel], p_n := p_n p1 + 1\<rparr>))"

subsection \<open>\<^verbatim>\<open>onion_poller_go\<close>\<close>

definition onion_poller_go :: "env \<Rightarrow> onion_poller \<Rightarrow> int \<Rightarrow> int outcome" where
  "onion_poller_go E poller fd =
     (case onion_poller_find_fd_and_lock poller fd of
        Blocks b p \<Rightarrow> Blocks b p
      | Fault \<Rightarrow> Fault
      | Returns el p \<Rightarrow>
          (case el of
             None \<Rightarrow> Returns 0 p
           | Some i \<Rightarrow>
               let p1 = upd_el i (\<lambda>e. e\<lparr>el_active := 1\<rparr>) p;
                   ev = \<lparr>ev_events = EPOLLIN OR EPOLLHUP OR EPOLLONESHOT,
                         ev_ptr = el_addr (p_head p1 ! i)\<rparr>;
                   r = epoll_ctl_ret E EPOLL_CTL_ADD fd p1;
                   p2 = sys (Epoll_ctl (p_fd p1) EPOLL_CTL_ADD fd (Some ev) r) p1
               in if r < 0
                  then Returns 1 (log ERROR ''Error add descriptor to listen to. %s'' p2)
                  else Returns 1 (upd_el i (\<lambda>e. e\<lparr>el_mutex := False\<rparr>) p2)))"

subsection \<open>\<^verbatim>\<open>onion_poller_free_element\<close> and \<^verbatim>\<open>onion_poller_remove\<close>\<close>

text \<open>The node \<open>el\<close> has been unlinked by the caller: it is no longer in \<open>p_head\<close>.\<close>

definition onion_poller_free_element :: "env \<Rightarrow> onion_poller \<Rightarrow> onion_poller_el \<Rightarrow> unit outcome" where
  "onion_poller_free_element E poller el =
     (if el_mutex el then Blocks (El_mutex (el_addr el)) poller
      else
        let r = epoll_ctl_ret E EPOLL_CTL_DEL (el_fd el) poller;
            p1 = sys (Epoll_ctl (p_fd poller) EPOLL_CTL_DEL (el_fd el) None r) poller;
            p2 = (if r < 0 then log ERROR ''Error remove descriptor to listen to. %s'' p1 else p1);
            p3 = (if el_shutdown el \<noteq> 0
                  then sys (Call_shutdown (el_shutdown el) (el_shutdown_data el)) p2 else p2);
            p4 = sys (Free_el (el_addr el)) p3
        in Returns () (p4\<lparr>p_n := p_n p4 - 1\<rparr>))"

text \<open>
  The \<^verbatim>\<open>while (el->next)\<close> loop of \<^verbatim>\<open>onion_poller_remove\<close>: \<open>pre\<close> is the list
  from the head up to and including \<^verbatim>\<open>el\<close>, the list argument after it is the chain
  that starts at \<^verbatim>\<open>el->next\<close>.
\<close>

fun remove_next :: "env \<Rightarrow> int \<Rightarrow> onion_poller_el list \<Rightarrow> onion_poller_el list \<Rightarrow> onion_poller \<Rightarrow> int outcome" where
  "remove_next E fd pre [] p =
     Returns 0 (log WARNING ''Trying to remove unknown fd from poller %d'' (p\<lparr>p_mutex := False\<rparr>))"
| "remove_next E fd pre (t # ts) p =
     (if el_fd t = fd then
        (case onion_poller_free_element E
                ((log DEBUG0 ''Removed from tail %p'' p)\<lparr>p_head := pre @ ts\<rparr>) t of
           Returns u p1 \<Rightarrow> Returns 0 (p1\<lparr>p_mutex := False\<rparr>)
         | Blocks b p1 \<Rightarrow> Blocks b p1
         | Fault \<Rightarrow> Fault)
      else remove_next E fd (pre @ [t]) ts p)"

text \<open>
  With an empty list \<^verbatim>\<open>el\<close> is \<^verbatim>\<open>NULL\<close>, the test \<^verbatim>\<open>el && el->fd==fd\<close> fails and
  \<^verbatim>\<open>while (el->next)\<close> reads through \<^verbatim>\<open>NULL\<close>.
\<close>

definition onion_poller_remove :: "env \<Rightarrow> onion_poller \<Rightarrow> int \<Rightarrow> int outcome" where
  "onion_poller_remove E poller fd =
     (if p_mutex poller then Blocks Poller_mutex poller
      else
        let p0 = log DEBUG0 ''Trying to remove fd %d (%d)'' (poller\<lparr>p_mutex := True\<rparr>) in
        (case p_head p0 of
           [] \<Rightarrow> Fault
         | el # rest \<Rightarrow>
             if el_fd el = fd then
               (case onion_poller_free_element E
                       ((log DEBUG0 ''Removed from head %p'' p0)\<lparr>p_head := rest\<rparr>) el of
                  Returns u p1 \<Rightarrow> Returns 0 (p1\<lparr>p_mutex := False\<rparr>)
                | Blocks b p1 \<Rightarrow> Blocks b p1
                | Fault \<Rightarrow> Fault)
             else remove_next E fd [el] rest p0))"

subsection \<open>\<^verbatim>\<open>onion_poller_free\<close>\<close>

text \<open>
  The wait \<^verbatim>\<open>while (p->npollers>0 && n>0)\<close>, \<open>n\<close> counting down from 10. No other
  thread runs in between, so \<open>p_npollers\<close> stays what it is.
\<close>

fun wait_pollers :: "nat \<Rightarrow> onion_poller \<Rightarrow> onion_poller" where
  "wait_pollers 0 p = p"
| "wait_pollers (Suc n) p =
     (if p_npollers p > 0
      then wait_pollers n (sys (Usleep 100000) (log DEBUG ''Waiting for %d epollers (%d)'' p))
      else p)"

text \<open>POSIX: \<open>0\<close> when the mutex was free and is now held by the caller, \<open>EBUSY\<close> when it is held.\<close>

definition pthread_mutex_trylock :: "onion_poller \<Rightarrow> int \<times> onion_poller" where
  "pthread_mutex_trylock p = (if p_mutex p then (EBUSY, p) else (0, p\<lparr>p_mutex := True\<rparr>))"

text \<open>The \<^verbatim>\<open>while (next)\<close> loop inside the \<^verbatim>\<open>if\<close> of \<^verbatim>\<open>onion_poller_free\<close>.\<close>

fun free_els :: "onion_poller_el list \<Rightarrow> onion_poller \<Rightarrow> unit outcome" where
  "free_els [] p = Returns () p"
| "free_els (next # tnext) p =
     (if el_mutex next then Blocks (El_mutex (el_addr next)) p
      else
        let p1 = (if el_shutdown next \<noteq> 0
                  then sys (Call_shutdown (el_shutdown next) (el_shutdown_data next)) p else p)
        in free_els tnext (sys (Free_el (el_addr next)) p1))"

definition onion_poller_free :: "onion_poller \<Rightarrow> unit outcome" where
  "onion_poller_free p =
     (let p1 = (log DEBUG ''Free onion poller'' p)\<lparr>p_stop := 1\<rparr>;
          p2 = sys (Close (p_fd p1)) p1;
          p3 = wait_pollers 10 p2;
          (r, p4) = pthread_mutex_trylock p3
      in if r > 0 then
           (let p5 = log WARNING ''When cleaning the poller object, some poller is still active; not freeing memory'' p4 in
            case free_els (p_head p5) p5 of
              Returns u p6 \<Rightarrow> Returns () (log DEBUG0 ''Done'' (sys Free_poller (p6\<lparr>p_mutex := False\<rparr>)))
            | Blocks b p6 \<Rightarrow> Blocks b p6
            | Fault \<Rightarrow> Fault)
         else Returns () (log DEBUG0 ''Done'' p4))"

subsection \<open>\<^verbatim>\<open>onion_poller_stop\<close>\<close>

definition onion_poller_stop :: "onion_poller \<Rightarrow> onion_poller" where
  "onion_poller_stop p = p\<lparr>p_stop := 1\<rparr>"

subsection \<open>Sequences of calls\<close>

datatype api =
    Add int nat nat
  | Go int
  | Set_shutdown int nat nat
  | Set_timeout int int
  | Remove int
  | Stop

fun exec :: "env \<Rightarrow> api \<Rightarrow> onion_poller \<Rightarrow> int outcome" where
  "exec E (Add fd f data) p = onion_poller_add p fd f data"
| "exec E (Go fd) p = onion_poller_go E p fd"
| "exec E (Set_shutdown fd f data) p = onion_poller_set_shutdown p fd f data"
| "exec E (Set_timeout fd tmo) p = onion_poller_set_timeout p fd tmo"
| "exec E (Remove fd) p = onion_poller_remove E p fd"
| "exec E Stop p = Returns 0 (onion_poller_stop p)"

text \<open>One call after the other; the run ends where a call does not return.\<close>

fun run :: "env \<Rightarrow> api list \<Rightarrow> onion_poller \<Rightarrow> unit outcome" where
  "run E [] p = Returns () p"
| "run E (a # as) p =
     (case exec E a p of
        Returns r p1 \<Rightarrow> run E as p1
      | Blocks b p1 \<Rightarrow> Blocks b p1
      | Fault \<Rightarrow> Fault)"

subsection \<open>\<^verbatim>\<open>onion_poller_poll\<close>\<close>

text \<open>The node an event points to; \<open>None\<close> when no node of the list has the address (it was freed).\<close>

fun find_addr :: "nat \<Rightarrow> onion_poller_el list \<Rightarrow> nat option" where
  "find_addr a [] = None"
| "find_addr a (el # els) = (if el_addr el = a then Some 0 else map_option Suc (find_addr a els))"

text \<open>The body of \<^verbatim>\<open>for (i=0;i<nfds;i++)\<close> for one event, \<open>ptr\<close> being \<^verbatim>\<open>event[i].data.ptr\<close>.\<close>

definition dispatch :: "env \<Rightarrow> nat \<Rightarrow> onion_poller \<Rightarrow> unit outcome" where
  "dispatch E ptr p =
     (case find_addr ptr (p_head p) of
        None \<Rightarrow> Fault
      | Some i \<Rightarrow>
          if el_mutex (p_head p ! i) then Blocks (El_mutex ptr) p
          else
            let p1 = upd_el i (\<lambda>e. e\<lparr>el_mutex := True, el_delta_timeout := el_timeout e\<rparr>) p;
                el = p_head p1 ! i;
                n = callback E (el_f el) (el_data el) p1;
                p2 = sys (Call_f (el_f el) (el_data el)) p1
            in if n < 0 then
                 (case onion_poller_remove E (upd_el i (\<lambda>e. e\<lparr>el_mutex := False\<rparr>) p2) (el_fd el) of
                    Returns r p3 \<Rightarrow> Returns () p3
                  | Blocks b p3 \<Rightarrow> Blocks b p3
                  | Fault \<Rightarrow> Fault)
               else
                 let p3 = log DEBUG0 ''Resetting poller %d'' p2;
                     ev = \<lparr>ev_events = EPOLLIN OR EPOLLHUP OR EPOLLONESHOT, ev_ptr = ptr\<rparr>;
                     e = epoll_ctl_ret E EPOLL_CTL_MOD (el_fd el) p3;
                     p4 = sys (Epoll_ctl (p_fd p3) EPOLL_CTL_MOD (el_fd el) (Some ev) e) p3;
                     p5 = (if e < 0 then log ERROR ''Error resetting poller, %s'' p4 else p4)
                 in Returns () (upd_el i (\<lambda>e. e\<lparr>el_mutex := False\<rparr>) p5))"

fun dispatch_all :: "env \<Rightarrow> nat list \<Rightarrow> onion_poller \<Rightarrow> unit outcome" where
  "dispatch_all E [] p = Returns () p"
| "dispatch_all E (ptr # ptrs) p =
     (case dispatch E ptr p of
        Returns u p1 \<Rightarrow> dispatch_all E ptrs p1
      | Blocks b p1 \<Rightarrow> Blocks b p1
      | Fault \<Rightarrow> Fault)"

text \<open>
  One call of \<^verbatim>\<open>epoll_wait\<close> as the loop sees it: while the thread is blocked in it,
  other threads complete the calls \<open>others\<close>; then the kernel reports failure, or the
  nodes that are ready, of which it stores at most \<open>maxevents\<close> in the array.
\<close>

datatype wait_result = Wait_failed | Wait_ready "nat list"

definition epoll_wait :: "nat \<Rightarrow> wait_result \<Rightarrow> int \<times> nat list" where
  "epoll_wait maxevents w =
     (case w of
        Wait_failed \<Rightarrow> (- 1, [])
      | Wait_ready ptrs \<Rightarrow> (int (length (take maxevents ptrs)), take maxevents ptrs))"

text \<open>The two places where the loop is left: \<^verbatim>\<open>npollers--\<close> under the mutex of the poller.\<close>

definition poll_return :: "onion_poller \<Rightarrow> unit outcome" where
  "poll_return p =
     (let p1 = log DEBUG ''Finishing the epoll as finished: %s'' p in
      if p_mutex p1 then Blocks Poller_mutex p1
      else Returns () (p1\<lparr>p_npollers := p_npollers p1 - 1\<rparr>))"

definition poll_finish :: "onion_poller \<Rightarrow> unit outcome" where
  "poll_finish p =
     (let p1 = log DEBUG0 ''Finished polling fds'' p in
      if p_mutex p1 then Blocks Poller_mutex p1
      else Returns () (log DEBUG0 ''Npollers %d'' (p1\<lparr>p_npollers := p_npollers p1 - 1\<rparr>)))"

text \<open>
  \<^verbatim>\<open>while (!p->stop && p->head)\<close>. The list gives what each call of
  \<^verbatim>\<open>epoll_wait\<close> brings; when it is used up the thread stays in \<^verbatim>\<open>epoll_wait\<close>.
\<close>

fun poll_loop :: "env \<Rightarrow> (api list \<times> wait_result) list \<Rightarrow> onion_poller \<Rightarrow> unit outcome" where
  "poll_loop E [] p =
     (if p_stop p = 0 \<and> p_head p \<noteq> []
      then Blocks In_epoll_wait (sys (Epoll_wait (p_fd p) MAX_EVENTS (- 1)) p)
      else poll_finish p)"
| "poll_loop E ((others, w) # ws) p =
     (if p_stop p = 0 \<and> p_head p \<noteq> [] then
        (case run E others (sys (Epoll_wait (p_fd p) MAX_EVENTS (- 1)) p) of
           Blocks b p1 \<Rightarrow> Blocks b p1
         | Fault \<Rightarrow> Fault
         | Returns u p1 \<Rightarrow>
             let (nfds, event) = epoll_wait MAX_EVENTS w;
                 p2 = (if nfds < 0 then log DEBUG ''Some error happened'' p1 else p1)
             in if nfds < 0 \<and> (p_fd p2 < 0 \<or> p_head p2 = []) then poll_return p2
                else
                  (case dispatch_all E event p2 of
                     Returns u p3 \<Rightarrow> poll_loop E ws p3
                   | Blocks b p3 \<Rightarrow> Blocks b p3
                   | Fault \<Rightarrow> Fault))
      else poll_finish p)"

definition onion_poller_poll :: "env \<Rightarrow> (api list \<times> wait_result) list \<Rightarrow> onion_poller \<Rightarrow> unit outcome" where
  "onion_poller_poll E ws p =
     (let p1 = (log DEBUG0 ''Start poll of fds'' p)\<lparr>p_stop := 0\<rparr> in
      if p_mutex p1 then Blocks Poller_mutex p1
      else poll_loop E ws
             (log DEBUG0 ''Npollers %d. %d listenings %p'' (p1\<lparr>p_npollers := p_npollers p1 + 1\<rparr>)))"

subsection \<open>Concrete states\<close>

text \<open>An environment in which every callback returns \<open>0\<close> and every \<^verbatim>\<open>epoll_ctl\<close> succeeds.\<close>

definition quiet :: env where
  "quiet = \<lparr>callback = (\<lambda>f d p. 0), epoll_ctl_ret = (\<lambda>op fd p. 0)\<rparr>"

text \<open>The poller after \<^verbatim>\<open>onion_poller_new(4)\<close> and \<^verbatim>\<open>onion_poller_add(p, 5, f, data)\<close>.\<close>

definition one_el :: onion_poller where
  "one_el = \<lparr>p_fd = 3, p_stop = 0, p_n = 1, p_mutex = False, p_npollers = 0,
     p_head = [\<lparr>el_addr = 1, el_fd = 5, el_f = 1, el_data = 2,
                el_shutdown = 0, el_shutdown_data = 0,
                el_delta_timeout = - 1, el_timeout = - 1, el_mutex = False, el_active = 0\<rparr>],
     calls = [Epoll_create 4 3], logs = [(DEBUG0, ''Adding fd %d for polling (%d)'')], brk = 2\<rparr>"

text \<open>
  The poller after two more calls in each of which a node with a shutdown hook was added:
  no thread polls, no mutex is held.
\<close>

definition two_els :: onion_poller where
  "two_els = \<lparr>p_fd = 3, p_stop = 0, p_n = 2, p_mutex = False, p_npollers = 0,
     p_head = [\<lparr>el_addr = 1, el_fd = 5, el_f = 1, el_data = 2,
                el_shutdown = 8, el_shutdown_data = 2,
                el_delta_timeout = - 1, el_timeout = - 1, el_mutex = False, el_active = 0\<rparr>,
               \<lparr>el_addr = 2, el_fd = 6, el_f = 1, el_data = 4,
                el_shutdown = 8, el_shutdown_data = 4,
                el_delta_timeout = - 1, el_timeout = - 1, el_mutex = False, el_active = 0\<rparr>],
     calls = [Epoll_create 4 3], logs = [], brk = 3\<rparr>"

text \<open>What the cleanup loop of \<^verbatim>\<open>onion_poller_free\<close> does with one node.\<close>

definition el_calls :: "onion_poller_el \<Rightarrow> call list" where
  "el_calls el =
     (if el_shutdown el \<noteq> 0 then [Call_shutdown (el_shutdown el) (el_shutdown_data el)] else [])
     @ [Free_el (el_addr el)]"

text \<open>An environment in which every callback asks to be removed and every \<^verbatim>\<open>epoll_ctl\<close> fails.\<close>

definition failing :: env where
  "failing = \<lparr>callback = (\<lambda>f d p. - 1), epoll_ctl_ret = (\<lambda>op fd p. - 1)\<rparr>"

subsection \<open>Predicates used in the proofs\<close>

text \<open>
  What a call that returns can do to the list when it is not \<^verbatim>\<open>onion_poller_add\<close>:
  nothing, rewrite fields other than the descriptor of one node whose mutex was free, or
  unlink one node whose mutex was free.
\<close>

inductive touched :: "onion_poller_el list \<Rightarrow> onion_poller_el list \<Rightarrow> bool" where
  same: "touched xs xs"
| upd: "k < length xs \<Longrightarrow> \<not> el_mutex (xs ! k) \<Longrightarrow> el_fd y = el_fd (xs ! k) \<Longrightarrow> touched xs (xs[k := y])"
| del: "k < length xs \<Longrightarrow> \<not> el_mutex (xs ! k) \<Longrightarrow> touched xs (take k xs @ drop (Suc k) xs)"

text \<open>Every \<^verbatim>\<open>epoll_wait\<close> so far asked for at most \<open>MAX_EVENTS\<close> events.\<close>

fun wait_capped :: "call \<Rightarrow> bool" where
  "wait_capped (Epoll_wait fd m t) = (m \<le> MAX_EVENTS)"
| "wait_capped c = True"

definition capped :: "onion_poller \<Rightarrow> bool" where
  "capped p = list_all wait_capped (calls p)"

text \<open>What no function but \<^verbatim>\<open>onion_poller_poll\<close> itself changes.\<close>

definition frame :: "onion_poller \<Rightarrow> onion_poller \<Rightarrow> bool" where
  "frame p p' \<longleftrightarrow> p_fd p' = p_fd p \<and> p_npollers p' = p_npollers p \<and> p_mutex p' = p_mutex p \<and>
                 (capped p \<longrightarrow> capped p')"

text \<open>
  Along a run, \<^verbatim>\<open>onion_poller_add\<close> is only called with a descriptor that no node of
  the list has at that moment.
\<close>

fun fresh_adds :: "env \<Rightarrow> api list \<Rightarrow> onion_poller \<Rightarrow> bool" where
  "fresh_adds E [] p = True"
| "fresh_adds E (a # as) p =
     ((case a of Add c f x \<Rightarrow> c \<notin> el_fd ` set (p_head p) | _ \<Rightarrow> True) \<and>
      (case exec E a p of Returns r p1 \<Rightarrow> fresh_adds E as p1 | _ \<Rightarrow> True))"

text \<open>The descriptors in the registry after a run that returned, in list order.\<close>

definition registry_fds :: "unit outcome \<Rightarrow> int list option" where
  "registry_fds out = (case out of Returns u q \<Rightarrow> Some (map el_fd (p_head q)) | _ \<Rightarrow> None)"

text \<open>
  The poller after \<^verbatim>\<open>onion_poller_new(4)\<close>, \<^verbatim>\<open>onion_poller_add(p, 5, f, data)\<close> and
  \<^verbatim>\<open>onion_poller_set_shutdown(p, 5, hook, data)\<close>.
\<close>

definition hooked_el :: onion_poller where
  "hooked_el = \<lparr>p_fd = 3, p_stop = 0, p_n = 1, p_mutex = False, p_npollers = 0,
     p_head = [\<lparr>el_addr = 1, el_fd = 5, el_f = 1, el_data = 2,
                el_shutdown = 8, el_shutdown_data = 2,
                el_delta_timeout = - 1, el_timeout = - 1, el_mutex = False, el_active = 0\<rparr>],
     calls = [Epoll_create 4 3],
     logs = [(DEBUG0, ''Adding fd %d for polling (%d)''),
             (DEBUG0, ''Added shutdown callback for fd %d'')],
     brk = 2\<rparr>"

section \<open>Properties\<close>

subsection \<open>Lookup\<close>

lemma find_fd_None_iff: "find_fd d els = None \<longleftrightarrow> d \<notin> el_fd ` set els"
  by (induction els) auto

lemma find_fd_absent: "d \<notin> el_fd ` set els \<Longrightarrow> find_fd d els = None"
  by (simp add: find_fd_None_iff)

subsection \<open>Configuring an unknown descriptor\<close>

text \<open>
  C1. The claim: for a descriptor that is not in the registry, \<^verbatim>\<open>set_shutdown\<close> and
  \<^verbatim>\<open>set_timeout\<close> return false, allocate nothing and leave the registry as it is.
  The code tests \<^verbatim>\<open>!poller\<close> where it means \<^verbatim>\<open>!el\<close>: the lookup returns
  \<^verbatim>\<open>NULL\<close>, the test does not fire, and both functions write through the
  \<^verbatim>\<open>NULL\<close> element. What is proved: with the mutex of the poller free, both calls
  on a descriptor that no node has end in a fault and return nothing.
\<close>

theorem set_on_unknown_fd_faults:
  "d \<notin> el_fd ` set (p_head p) \<Longrightarrow> \<not> p_mutex p \<Longrightarrow>
     onion_poller_set_shutdown p d hook data = Fault \<and> onion_poller_set_timeout p d tmo = Fault"
  by (simp add: onion_poller_set_shutdown_def onion_poller_set_timeout_def
      onion_poller_find_fd_and_lock_def find_fd_absent is_NULL_def)

theorem set_on_unknown_fd_faults_witness:
  "7 \<notin> el_fd ` set (p_head (the (onion_poller_new 4 3))) \<and>
   \<not> p_mutex (the (onion_poller_new 4 3)) \<and>
   onion_poller_set_shutdown (the (onion_poller_new 4 3)) 7 1 2 = Fault \<and>
   onion_poller_set_timeout (the (onion_poller_new 4 3)) 7 1000 = Fault"
  using set_on_unknown_fd_faults [of 7 "the (onion_poller_new 4 3)" 1 2 1000]
  by (simp add: onion_poller_new_def)

subsection \<open>Removing a descriptor that is not there\<close>

lemma one_el_reached: "onion_poller_add (the (onion_poller_new 4 3)) 5 1 2 = Returns 0 one_el"
  by (simp add: onion_poller_add_def onion_poller_new_def one_el_def log_def Let_def)

lemma remove_next_absent:
  "d \<notin> el_fd ` set ts \<Longrightarrow>
   remove_next E d pre ts p =
     Returns 0 (log WARNING ''Trying to remove unknown fd from poller %d'' (p\<lparr>p_mutex := False\<rparr>))"
  by (induction ts arbitrary: pre) auto

text \<open>
  When the registry has at least one node and none has the descriptor, the call is the
  no-op of the claim: it returns \<open>0\<close>, writes the warning and changes nothing else.
\<close>

lemma remove_absent_nonempty:
  "\<not> p_mutex p \<Longrightarrow> p_head p \<noteq> [] \<Longrightarrow> d \<notin> el_fd ` set (p_head p) \<Longrightarrow>
   onion_poller_remove E p d =
     Returns 0 (p\<lparr>logs := logs p @ [(DEBUG0, ''Trying to remove fd %d (%d)''),
                                     (WARNING, ''Trying to remove unknown fd from poller %d'')]\<rparr>)"
  by (cases "p_head p") (auto simp: onion_poller_remove_def remove_next_absent log_def Let_def)

text \<open>
  C3. The claim: removing a descriptor that is not in the registry, in particular a second
  time after a successful removal and also when the registry has become empty, is a
  no-op that does not crash. With an empty registry the code reads \<^verbatim>\<open>el->next\<close>
  through the \<^verbatim>\<open>NULL\<close> head. What is proved: on a registry whose only node is
  that of \<open>d\<close>, the first removal returns and leaves the registry empty, and the second
  removal of \<open>d\<close> faults.
\<close>

theorem remove_twice_faults:
  "\<not> p_mutex p \<Longrightarrow> p_head p = [el] \<Longrightarrow> el_fd el = d \<Longrightarrow> \<not> el_mutex el \<Longrightarrow>
   \<exists>p1. onion_poller_remove E p d = Returns 0 p1 \<and> p_head p1 = [] \<and> \<not> p_mutex p1 \<and>
        onion_poller_remove E p1 d = Fault"
  by (simp add: onion_poller_remove_def onion_poller_free_element_def log_def sys_def Let_def)

theorem remove_twice_faults_witness:
  "\<not> p_mutex one_el \<and> p_head one_el = [hd (p_head one_el)] \<and> el_fd (hd (p_head one_el)) = 5 \<and>
   \<not> el_mutex (hd (p_head one_el)) \<and>
   (\<exists>p1. onion_poller_remove quiet one_el 5 = Returns 0 p1 \<and> p_head p1 = [] \<and> \<not> p_mutex p1 \<and>
        onion_poller_remove quiet p1 5 = Fault)"
  using remove_twice_faults [of one_el "hd (p_head one_el)" 5 quiet]
  by (simp add: one_el_def)

subsection \<open>Destroying the poller\<close>

lemma free_els_unlocked:
  "\<forall>el \<in> set els. \<not> el_mutex el \<Longrightarrow>
   free_els els p = Returns () (p\<lparr>calls := calls p @ concat (map el_calls els)\<rparr>)"
  by (induction els arbitrary: p) (auto simp: sys_def el_calls_def Let_def)

lemma wait_pollers_idle: "p_npollers p \<le> 0 \<Longrightarrow> wait_pollers k p = p"
  by (cases k) auto

lemma wait_pollers_frame:
  "p_mutex (wait_pollers k p) = p_mutex p \<and> p_head (wait_pollers k p) = p_head p \<and>
   p_npollers (wait_pollers k p) = p_npollers p \<and>
   (\<exists>j \<le> k. calls (wait_pollers k p) = calls p @ replicate j (Usleep 100000))"
proof (induction k arbitrary: p)
  case 0
  then show ?case by simp
next
  case (Suc k)
  show ?case
  proof (cases "p_npollers p > 0")
    case False
    then show ?thesis by simp
  next
    case True
    let ?q = "sys (Usleep 100000) (log DEBUG ''Waiting for %d epollers (%d)'' p)"
    from Suc.IH [of ?q] obtain j where j: "j \<le> k"
      "calls (wait_pollers k ?q) = calls ?q @ replicate j (Usleep 100000)"
      by blast
    have "calls (wait_pollers (Suc k) p) = calls p @ replicate (Suc j) (Usleep 100000)"
      using True j by (simp add: sys_def log_def replicate_app_Cons_same)
    moreover have "Suc j \<le> Suc k" using j by simp
    ultimately have "\<exists>j \<le> Suc k. calls (wait_pollers (Suc k) p) = calls p @ replicate j (Usleep 100000)"
      by blast
    then show ?thesis using True Suc.IH [of ?q] by (simp add: sys_def log_def)
  qed
qed

text \<open>
  The branch that the code takes when \<^verbatim>\<open>pthread_mutex_trylock\<close> fails because the
  mutex of the poller is held: it writes "some poller is still active; not freeing
  memory", and then runs every shutdown hook in list order and frees every node and the
  poller.
\<close>

lemma free_busy_runs_cleanup:
  assumes "p_mutex p" "\<forall>el \<in> set (p_head p). \<not> el_mutex el"
  shows "\<exists>p' j. onion_poller_free p = Returns () p' \<and> j \<le> 10 \<and>
        calls p' = calls p @ [Close (p_fd p)] @ replicate j (Usleep 100000)
                   @ concat (map el_calls (p_head p)) @ [Free_poller] \<and>
        (WARNING, ''When cleaning the poller object, some poller is still active; not freeing memory'')
          \<in> set (logs p')"
proof -
  let ?p2 = "sys (Close (p_fd p)) ((log DEBUG ''Free onion poller'' p)\<lparr>p_stop := 1\<rparr>)"
  let ?p3 = "wait_pollers 10 ?p2"
  obtain j where j: "j \<le> 10" "calls ?p3 = calls ?p2 @ replicate j (Usleep 100000)"
    using wait_pollers_frame [of 10 ?p2] by blast
  have m: "p_mutex ?p3" and h: "p_head ?p3 = p_head p"
    using wait_pollers_frame [of 10 ?p2] assms by (simp_all add: sys_def log_def)
  show ?thesis
    using j m h assms(2)
    by (simp add: onion_poller_free_def pthread_mutex_trylock_def Let_def EBUSY_def
        free_els_unlocked log_def sys_def)
qed

text \<open>
  C2. The claim: after the bounded wait, \<^verbatim>\<open>onion_poller_free\<close> with no active poll
  thread runs the shutdown hook of every remaining node in list order and frees the nodes
  and the poller, and with active threads it logs a warning and frees nothing. The code
  decides on \<^verbatim>\<open>pthread_mutex_trylock(&p->mutex)>0\<close>, which is true when the lock
  was \<^emph>\<open>not\<close> obtained. What is proved: with no poll thread and the mutex free, the
  call closes the epoll descriptor and returns; no hook is called, nothing is freed, no
  warning is written, the list is as before and the mutex stays locked.
\<close>

theorem free_idle_skips_cleanup:
  "\<not> p_mutex p \<Longrightarrow> p_npollers p \<le> 0 \<Longrightarrow>
   \<exists>p'. onion_poller_free p = Returns () p' \<and> calls p' = calls p @ [Close (p_fd p)] \<and>
        logs p' = logs p @ [(DEBUG, ''Free onion poller''), (DEBUG0, ''Done'')] \<and>
        p_head p' = p_head p \<and> p_mutex p'"
  by (simp add: onion_poller_free_def pthread_mutex_trylock_def log_def sys_def Let_def
      wait_pollers_idle)

theorem free_idle_skips_cleanup_witness:
  "\<not> p_mutex two_els \<and> p_npollers two_els \<le> 0 \<and>
   (\<exists>p'. onion_poller_free two_els = Returns () p' \<and>
         calls p' = [Epoll_create 4 3, Close 3] \<and>
         logs p' = [(DEBUG, ''Free onion poller''), (DEBUG0, ''Done'')] \<and>
         map el_shutdown (p_head p') = [8, 8] \<and> p_mutex p')"
proof -
  have a: "\<not> p_mutex two_els" and b: "p_npollers two_els \<le> 0"
    by (simp_all add: two_els_def)
  from free_idle_skips_cleanup [OF a b] obtain p' where
    p': "onion_poller_free two_els = Returns () p'" "calls p' = calls two_els @ [Close (p_fd two_els)]"
      "logs p' = logs two_els @ [(DEBUG, ''Free onion poller''), (DEBUG0, ''Done'')]"
      "p_head p' = p_head two_els" "p_mutex p'"
    by blast
  have c: "calls p' = [Epoll_create 4 3, Close 3]"
    and l: "logs p' = [(DEBUG, ''Free onion poller''), (DEBUG0, ''Done'')]"
    and h: "map el_shutdown (p_head p') = [8, 8]"
    using p' by (simp_all add: two_els_def)
  show ?thesis
    using a b p'(1,5) c l h by (intro conjI exI [of _ p']) assumption+
qed

subsection \<open>Removing a descriptor that is there\<close>

lemma find_fd_Some:
  "find_fd d els = Some i \<Longrightarrow> i < length els \<and> el_fd (els ! i) = d \<and> d \<notin> el_fd ` set (take i els)"
  by (induction els arbitrary: i) (auto split: if_splits)

lemma remove_next_found:
  "find_fd d ts = Some j \<Longrightarrow>
   remove_next E d pre ts p =
     (case onion_poller_free_element E
             ((log DEBUG0 ''Removed from tail %p'' p)\<lparr>p_head := pre @ take j ts @ drop (Suc j) ts\<rparr>)
             (ts ! j) of
        Returns u p1 \<Rightarrow> Returns 0 (p1\<lparr>p_mutex := False\<rparr>)
      | Blocks b p1 \<Rightarrow> Blocks b p1
      | Fault \<Rightarrow> Fault)"
proof (induction ts arbitrary: pre j)
  case Nil
  then show ?case by simp
next
  case (Cons t ts)
  show ?case
  proof (cases "el_fd t = d")
    case True
    with Cons.prems show ?thesis by simp
  next
    case False
    with Cons.prems obtain k where k: "find_fd d ts = Some k" "j = Suc k"
      by auto
    from Cons.IH [OF k(1), of "pre @ [t]"] False k(2) show ?thesis by simp
  qed
qed

text \<open>
  Removal when nothing holds the mutexes. For a descriptor \<open>d\<close> whose first node is at
  position \<open>i\<close> of the list (the head or further down), with the mutex of the poller
  and of that node free, \<^verbatim>\<open>onion_poller_remove\<close> returns, and: the state \<open>q\<close> in which
  \<^verbatim>\<open>epoll_ctl\<close> is called already has the node unlinked, with nothing called yet and
  the count not yet decremented; the calls made are, in this order,
  \<^verbatim>\<open>EPOLL_CTL_DEL\<close> of \<open>d\<close> (whatever it returns), the shutdown hook once if it is
  set, and \<^verbatim>\<open>free\<close> of the node; the list has lost exactly that node and \<open>p_n\<close> is
  one less.
\<close>

lemma remove_present:
  assumes "\<not> p_mutex p" and "find_fd d (p_head p) = Some i" and "\<not> el_mutex (p_head p ! i)"
  shows "\<exists>q p'.
      p_head q = take i (p_head p) @ drop (Suc i) (p_head p) \<and> calls q = calls p \<and> p_n q = p_n p \<and>
      onion_poller_remove E p d = Returns 0 p' \<and>
      calls p' = calls p @ [Epoll_ctl (p_fd p) EPOLL_CTL_DEL d None (epoll_ctl_ret E EPOLL_CTL_DEL d q)]
                   @ el_calls (p_head p ! i) \<and>
      p_head p' = take i (p_head p) @ drop (Suc i) (p_head p) \<and>
      p_n p' = p_n p - 1 \<and> \<not> p_mutex p'"
proof (cases "p_head p")
  case Nil
  with assms(2) show ?thesis by simp
next
  case (Cons el rest)
  show ?thesis
  proof (cases "el_fd el = d")
    case True
    with assms Cons have i: "i = 0" by simp
    let ?q = "(log DEBUG0 ''Removed from head %p''
                 (log DEBUG0 ''Trying to remove fd %d (%d)'' (p\<lparr>p_mutex := True\<rparr>)))\<lparr>p_head := rest\<rparr>"
    show ?thesis
      apply (rule exI [of _ ?q])
      using assms True Cons i
      by (simp add: onion_poller_remove_def onion_poller_free_element_def Let_def log_def sys_def
          el_calls_def)
  next
    case False
    with assms(2) Cons obtain j where j: "find_fd d rest = Some j" "i = Suc j"
      by auto
    have fd: "el_fd (rest ! j) = d" using find_fd_Some [OF j(1)] by simp
    let ?q = "(log DEBUG0 ''Removed from tail %p''
                 (log DEBUG0 ''Trying to remove fd %d (%d)'' (p\<lparr>p_mutex := True\<rparr>)))
                \<lparr>p_head := [el] @ take j rest @ drop (Suc j) rest\<rparr>"
    show ?thesis
      apply (rule exI [of _ ?q])
      using assms False Cons j fd
      by (simp add: onion_poller_remove_def remove_next_found [OF j(1)]
          onion_poller_free_element_def Let_def log_def sys_def el_calls_def)
  qed
qed

lemma remove_present_example:
  "\<not> p_mutex two_els \<and> find_fd 6 (p_head two_els) = Some 1 \<and> \<not> el_mutex (p_head two_els ! 1) \<and>
   (\<exists>p'. onion_poller_remove quiet two_els 6 = Returns 0 p' \<and>
         calls p' = [Epoll_create 4 3, Epoll_ctl 3 EPOLL_CTL_DEL 6 None 0, Call_shutdown 8 4, Free_el 2] \<and>
         map el_fd (p_head p') = [5] \<and> p_n p' = 1)"
proof -
  have a: "\<not> p_mutex two_els" and b: "find_fd 6 (p_head two_els) = Some 1"
    and c: "\<not> el_mutex (p_head two_els ! 1)"
    by (simp_all add: two_els_def)
  from remove_present [OF a b c, of quiet] obtain q p' where
    r: "onion_poller_remove quiet two_els 6 = Returns 0 p'"
    and cs: "calls p' = calls two_els @ [Epoll_ctl (p_fd two_els) EPOLL_CTL_DEL 6 None
                (epoll_ctl_ret quiet EPOLL_CTL_DEL 6 q)] @ el_calls (p_head two_els ! 1)"
    and h: "p_head p' = take 1 (p_head two_els) @ drop (Suc 1) (p_head two_els)"
    and n: "p_n p' = p_n two_els - 1"
    by blast
  have cs': "calls p' = [Epoll_create 4 3, Epoll_ctl 3 EPOLL_CTL_DEL 6 None 0, Call_shutdown 8 4, Free_el 2]"
    using cs by (simp add: two_els_def quiet_def el_calls_def)
  have h': "map el_fd (p_head p') = [5]" using h by (simp add: two_els_def)
  have n': "p_n p' = 1" using n by (simp add: two_els_def)
  show ?thesis
    using a b c r cs' h' n' by (intro conjI exI [of _ p']) assumption+
qed

subsection \<open>Activating a descriptor\<close>




subsection \<open>The stop flag at the start of the loop\<close>

text \<open>
  C9. \<^verbatim>\<open>onion_poller_poll\<close> started after \<^verbatim>\<open>onion_poller_stop\<close> does exactly what it
  does without the stop. The flag is cleared before the count of polling threads is
  incremented: when the mutex of the poller is held the thread blocks on it with the flag
  cleared and the count as it was; otherwise the loop is entered with the flag cleared and
  the count one higher.
\<close>

theorem poll_clears_stop:
  "onion_poller_poll E ws (onion_poller_stop p) = onion_poller_poll E ws p \<and>
   (p_mutex p \<longrightarrow> (\<exists>q. onion_poller_poll E ws p = Blocks Poller_mutex q \<and>
                        p_stop q = 0 \<and> p_npollers q = p_npollers p)) \<and>
   (\<not> p_mutex p \<longrightarrow> (\<exists>q. onion_poller_poll E ws p = poll_loop E ws q \<and>
                        p_stop q = 0 \<and> p_npollers q = p_npollers p + 1))"
proof (intro conjI impI)
  show "onion_poller_poll E ws (onion_poller_stop p) = onion_poller_poll E ws p"
    by (simp add: onion_poller_poll_def onion_poller_stop_def log_def Let_def)
next
  assume "p_mutex p"
  then show "\<exists>q. onion_poller_poll E ws p = Blocks Poller_mutex q \<and> p_stop q = 0 \<and>
                p_npollers q = p_npollers p"
    by (simp add: onion_poller_poll_def log_def Let_def)
next
  assume m: "\<not> p_mutex p"
  let ?p1 = "(log DEBUG0 ''Start poll of fds'' p)\<lparr>p_stop := 0\<rparr>"
  let ?q = "log DEBUG0 ''Npollers %d. %d listenings %p'' (?p1\<lparr>p_npollers := p_npollers ?p1 + 1\<rparr>)"
  have "onion_poller_poll E ws p = poll_loop E ws ?q"
    using m by (simp add: onion_poller_poll_def log_def Let_def)
  moreover have "p_stop ?q = 0" and "p_npollers ?q = p_npollers p + 1"
    by (simp_all add: log_def)
  ultimately show "\<exists>q. onion_poller_poll E ws p = poll_loop E ws q \<and> p_stop q = 0 \<and>
                p_npollers q = p_npollers p + 1"
    by blast
qed

theorem poll_clears_stop_witness:
  "p_stop (onion_poller_stop one_el) = 1 \<and> \<not> p_mutex one_el \<and>
   onion_poller_poll quiet [] (onion_poller_stop one_el) = onion_poller_poll quiet [] one_el \<and>
   (\<exists>q. onion_poller_poll quiet [] (onion_poller_stop one_el) = Blocks In_epoll_wait q \<and>
        p_stop q = 0 \<and> p_npollers q = 1) \<and>
   p_mutex (one_el\<lparr>p_mutex := True\<rparr>) \<and>
   (\<exists>q. onion_poller_poll quiet [] (one_el\<lparr>p_mutex := True\<rparr>) = Blocks Poller_mutex q \<and>
        p_stop q = 0 \<and> p_npollers q = 0)"
proof -
  have s: "p_stop (onion_poller_stop one_el) = 1" and m: "\<not> p_mutex one_el"
    and m': "p_mutex (one_el\<lparr>p_mutex := True\<rparr>)"
    by (simp_all add: onion_poller_stop_def one_el_def)
  have e: "onion_poller_poll quiet [] (onion_poller_stop one_el) = onion_poller_poll quiet [] one_el"
    using poll_clears_stop [of quiet "[]" one_el] by blast
  from poll_clears_stop [of quiet "[]" one_el] m obtain q where
    q: "onion_poller_poll quiet [] one_el = poll_loop quiet [] q" "p_stop q = 0"
       "p_npollers q = p_npollers one_el + 1"
    by blast
  have run: "\<exists>q. onion_poller_poll quiet [] (onion_poller_stop one_el) = Blocks In_epoll_wait q \<and>
        p_stop q = 0 \<and> p_npollers q = 1"
    by (simp add: onion_poller_poll_def onion_poller_stop_def one_el_def log_def sys_def Let_def)
  from poll_clears_stop [of quiet "[]" "one_el\<lparr>p_mutex := True\<rparr>"] m' obtain q' where
    "onion_poller_poll quiet [] (one_el\<lparr>p_mutex := True\<rparr>) = Blocks Poller_mutex q'"
    "p_stop q' = 0" "p_npollers q' = p_npollers (one_el\<lparr>p_mutex := True\<rparr>)"
    by blast
  then have blk: "\<exists>q. onion_poller_poll quiet [] (one_el\<lparr>p_mutex := True\<rparr>) = Blocks Poller_mutex q \<and>
        p_stop q = 0 \<and> p_npollers q = 0"
    by (simp add: one_el_def)
  from s m e run m' blk show ?thesis by simp
qed

subsection \<open>What a call that returns has changed\<close>

lemma find_and_lock_touched:
  assumes "onion_poller_find_fd_and_lock p c = Returns el p'"
  shows "
     (el = None \<and> p' = p \<and> c \<notin> el_fd ` set (p_head p)) \<or>
     (\<exists>k. el = Some k \<and> find_fd c (p_head p) = Some k \<and> k < length (p_head p) \<and> \<not> el_mutex (p_head p ! k) \<and>
          p' = upd_el k (\<lambda>e. e\<lparr>el_mutex := True\<rparr>) p \<and> \<not> p_mutex p)"
proof (cases "find_fd c (p_head p)")
  case None
  then have "c \<notin> el_fd ` set (p_head p)" by (simp add: find_fd_None_iff)
  with None assms show ?thesis
    by (auto simp: onion_poller_find_fd_and_lock_def split: if_splits)
next
  case (Some k)
  from find_fd_Some [OF Some] have "k < length (p_head p)" by simp
  with Some assms show ?thesis
    by (auto simp: onion_poller_find_fd_and_lock_def split: if_splits)
qed

lemma go_touched:
  assumes "onion_poller_go E p c = Returns r p'"
  shows "touched (p_head p) (p_head p') \<and> frame p p'"
proof (cases "onion_poller_find_fd_and_lock p c")
  case (Returns el q)
  from find_and_lock_touched [OF Returns] show ?thesis
  proof
    assume "el = None \<and> q = p \<and> c \<notin> el_fd ` set (p_head p)"
    with assms Returns show ?thesis
      by (auto simp: onion_poller_go_def frame_def capped_def intro: touched.same)
  next
    assume "\<exists>k. el = Some k \<and> find_fd c (p_head p) = Some k \<and> k < length (p_head p) \<and>
      \<not> el_mutex (p_head p ! k) \<and> q = upd_el k (\<lambda>e. e\<lparr>el_mutex := True\<rparr>) p \<and> \<not> p_mutex p"
    then obtain k where k: "el = Some k" "k < length (p_head p)" "\<not> el_mutex (p_head p ! k)"
      "q = upd_el k (\<lambda>e. e\<lparr>el_mutex := True\<rparr>) p" by blast
    with assms Returns show ?thesis
      by (auto simp: onion_poller_go_def frame_def capped_def upd_el_def sys_def log_def Let_def
          split: if_splits intro!: touched.upd)
  qed
next
  case (Blocks b q)
  with assms show ?thesis by (simp add: onion_poller_go_def)
next
  case Fault
  with assms show ?thesis by (simp add: onion_poller_go_def)
qed

lemma set_shutdown_touched:
  assumes "onion_poller_set_shutdown p c f x = Returns r p'"
  shows "touched (p_head p) (p_head p') \<and> frame p p'"
proof (cases "onion_poller_find_fd_and_lock p c")
  case (Returns el q)
  from find_and_lock_touched [OF Returns] show ?thesis
  proof
    assume "el = None \<and> q = p \<and> c \<notin> el_fd ` set (p_head p)"
    with assms Returns show ?thesis
      by (auto simp: onion_poller_set_shutdown_def is_NULL_def)
  next
    assume "\<exists>k. el = Some k \<and> find_fd c (p_head p) = Some k \<and> k < length (p_head p) \<and>
      \<not> el_mutex (p_head p ! k) \<and> q = upd_el k (\<lambda>e. e\<lparr>el_mutex := True\<rparr>) p \<and> \<not> p_mutex p"
    then obtain k where k: "el = Some k" "k < length (p_head p)" "\<not> el_mutex (p_head p ! k)"
      "q = upd_el k (\<lambda>e. e\<lparr>el_mutex := True\<rparr>) p" by blast
    with assms Returns show ?thesis
      by (auto simp: onion_poller_set_shutdown_def is_NULL_def frame_def capped_def upd_el_def sys_def log_def Let_def
          split: if_splits intro!: touched.upd)
  qed
next
  case (Blocks b q)
  with assms show ?thesis by (simp add: onion_poller_set_shutdown_def)
next
  case Fault
  with assms show ?thesis by (simp add: onion_poller_set_shutdown_def)
qed

lemma set_timeout_touched:
  assumes "onion_poller_set_timeout p c t = Returns r p'"
  shows "touched (p_head p) (p_head p') \<and> frame p p'"
proof (cases "onion_poller_find_fd_and_lock p c")
  case (Returns el q)
  from find_and_lock_touched [OF Returns] show ?thesis
  proof
    assume "el = None \<and> q = p \<and> c \<notin> el_fd ` set (p_head p)"
    with assms Returns show ?thesis
      by (auto simp: onion_poller_set_timeout_def is_NULL_def)
  next
    assume "\<exists>k. el = Some k \<and> find_fd c (p_head p) = Some k \<and> k < length (p_head p) \<and>
      \<not> el_mutex (p_head p ! k) \<and> q = upd_el k (\<lambda>e. e\<lparr>el_mutex := True\<rparr>) p \<and> \<not> p_mutex p"
    then obtain k where k: "el = Some k" "k < length (p_head p)" "\<not> el_mutex (p_head p ! k)"
      "q = upd_el k (\<lambda>e. e\<lparr>el_mutex := True\<rparr>) p" by blast
    with assms Returns show ?thesis
      by (auto simp: onion_poller_set_timeout_def is_NULL_def frame_def capped_def upd_el_def sys_def log_def Let_def
          split: if_splits intro!: touched.upd)
  qed
next
  case (Blocks b q)
  with assms show ?thesis by (simp add: onion_poller_set_timeout_def)
next
  case Fault
  with assms show ?thesis by (simp add: onion_poller_set_timeout_def)
qed

lemma remove_found:
  assumes "\<not> p_mutex p" and "find_fd d (p_head p) = Some i"
  shows "\<exists>q. p_head q = take i (p_head p) @ drop (Suc i) (p_head p) \<and> calls q = calls p \<and>
           p_n q = p_n p \<and> p_fd q = p_fd p \<and> p_npollers q = p_npollers p \<and> p_mutex q \<and>
           onion_poller_remove E p d =
             (case onion_poller_free_element E q (p_head p ! i) of
                Returns u p1 \<Rightarrow> Returns 0 (p1\<lparr>p_mutex := False\<rparr>)
              | Blocks b p1 \<Rightarrow> Blocks b p1
              | Fault \<Rightarrow> Fault)"
proof (cases "p_head p")
  case Nil
  with assms(2) show ?thesis by simp
next
  case (Cons el rest)
  show ?thesis
  proof (cases "el_fd el = d")
    case True
    with assms Cons have i: "i = 0" by simp
    let ?q = "(log DEBUG0 ''Removed from head %p''
                 (log DEBUG0 ''Trying to remove fd %d (%d)'' (p\<lparr>p_mutex := True\<rparr>)))\<lparr>p_head := rest\<rparr>"
    show ?thesis
      apply (rule exI [of _ ?q])
      using assms True Cons i
      by (simp add: onion_poller_remove_def Let_def log_def)
  next
    case False
    with assms(2) Cons obtain j where j: "find_fd d rest = Some j" "i = Suc j"
      by auto
    let ?q = "(log DEBUG0 ''Removed from tail %p''
                 (log DEBUG0 ''Trying to remove fd %d (%d)'' (p\<lparr>p_mutex := True\<rparr>)))
                \<lparr>p_head := [el] @ take j rest @ drop (Suc j) rest\<rparr>"
    show ?thesis
      apply (rule exI [of _ ?q])
      using assms False Cons j
      by (simp add: onion_poller_remove_def remove_next_found [OF j(1)] Let_def log_def)
  qed
qed

lemma free_element_effect:
  "onion_poller_free_element E q el = Returns u p1 \<Longrightarrow>
     \<not> el_mutex el \<and> p_head p1 = p_head q \<and> p_fd p1 = p_fd q \<and> p_npollers p1 = p_npollers q \<and>
     (capped q \<longrightarrow> capped p1)"
  by (auto simp: onion_poller_free_element_def Let_def sys_def log_def capped_def split: if_splits)

lemma remove_touched:
  assumes "onion_poller_remove E p c = Returns r p'"
  shows "touched (p_head p) (p_head p') \<and> frame p p'"
proof -
  have m: "\<not> p_mutex p" using assms by (auto simp: onion_poller_remove_def)
  have ne: "p_head p \<noteq> []" using assms m by (auto simp: onion_poller_remove_def Let_def log_def)
  show ?thesis
  proof (cases "find_fd c (p_head p)")
    case None
    then have "c \<notin> el_fd ` set (p_head p)" by (simp add: find_fd_None_iff)
    from remove_absent_nonempty [OF m ne this, of E] assms show ?thesis
      by (auto simp: frame_def capped_def intro: touched.same)
  next
    case (Some i)
    from remove_found [OF m Some, of E] obtain q where
      q: "p_head q = take i (p_head p) @ drop (Suc i) (p_head p)" "p_fd q = p_fd p"
         "p_npollers q = p_npollers p" "calls q = calls p"
         "onion_poller_remove E p c =
             (case onion_poller_free_element E q (p_head p ! i) of
                Returns u p1 \<Rightarrow> Returns 0 (p1\<lparr>p_mutex := False\<rparr>)
              | Blocks b p1 \<Rightarrow> Blocks b p1
              | Fault \<Rightarrow> Fault)"
      by blast
    from q(5) assms obtain u p1 where
      p1: "onion_poller_free_element E q (p_head p ! i) = Returns u p1" "p' = p1\<lparr>p_mutex := False\<rparr>"
      by (auto split: outcome.splits)
    from free_element_effect [OF p1(1)] q p1(2) find_fd_Some [OF Some] m show ?thesis
      by (auto simp: frame_def capped_def intro: touched.del)
  qed
qed

lemma add_effect:
  "onion_poller_add p c f x = Returns r p' \<Longrightarrow>
     (\<exists>nel. el_fd nel = c \<and> p_head p' = p_head p @ [nel]) \<and> frame p p'"
  by (auto simp: onion_poller_add_def Let_def log_def frame_def capped_def split: if_splits)

lemma exec_effect:
  assumes "exec E a p = Returns r p'"
  shows "frame p p' \<and>
         (case a of
            Add c f x \<Rightarrow> \<exists>nel. el_fd nel = c \<and> p_head p' = p_head p @ [nel]
          | _ \<Rightarrow> touched (p_head p) (p_head p'))"
proof (cases a)
  case (Add c f x)
  with assms add_effect [of p c f x r p'] show ?thesis by simp
next
  case (Go c)
  with assms go_touched [of E p c r p'] show ?thesis by simp
next
  case (Set_shutdown c f x)
  with assms set_shutdown_touched [of p c f x r p'] show ?thesis by simp
next
  case (Set_timeout c t)
  with assms set_timeout_touched [of p c t r p'] show ?thesis by simp
next
  case (Remove c)
  with assms remove_touched [of E p c r p'] show ?thesis by simp
next
  case Stop
  with assms show ?thesis
    by (auto simp: onion_poller_stop_def frame_def capped_def intro: touched.same)
qed

lemma frame_trans: "frame p q \<Longrightarrow> frame q r \<Longrightarrow> frame p r"
  by (simp add: frame_def)

lemma run_frame: "run E ops p = Returns u p' \<Longrightarrow> frame p p'"
proof (induction ops arbitrary: p)
  case Nil
  then show ?case by (simp add: frame_def)
next
  case (Cons a ops)
  from Cons.prems obtain r q where q: "exec E a p = Returns r q" "run E ops q = Returns u p'"
    by (auto split: outcome.splits)
  from exec_effect [OF q(1)] Cons.IH [OF q(2)] show ?case
    by (blast intro: frame_trans)
qed

subsection \<open>Descriptors in the registry\<close>

lemma touched_distinct:
  "touched xs ys \<Longrightarrow> distinct (map el_fd xs) \<Longrightarrow> distinct (map el_fd ys)"
proof (induction rule: touched.induct)
  case (same xs)
  then show ?case .
next
  case (upd k xs y)
  then have "map el_fd (xs[k := y]) = map el_fd xs"
    by (simp add: map_update list_update_same_conv)
  with upd show ?case by simp
next
  case (del k xs)
  let ?zs = "map el_fd xs"
  have "distinct (take k ?zs @ drop (Suc k) ?zs)"
    using del.prems by (simp add: set_take_disj_set_drop_if_distinct)
  then show ?case by (simp add: take_map drop_map)
qed

text \<open>
  C7, as stated: after any sequence of add, activate and remove a descriptor is in the
  registry at most once, also when \<^verbatim>\<open>add\<close> is called with a descriptor that is
  already there. \<^verbatim>\<open>onion_poller_add\<close> never looks at the descriptors in the list: two
  calls with descriptor 5 on a new poller leave two nodes for it.
\<close>

theorem add_twice_duplicates:
  "registry_fds (run quiet [Add 5 1 2, Add 5 1 2] (the (onion_poller_new 4 3))) = Some [5, 5] \<and>
   \<not> distinct [5, 5 :: int]"
  by (simp add: registry_fds_def onion_poller_new_def onion_poller_add_def Let_def log_def)

text \<open>
  C7, amended: from a registry in which every descriptor occurs once, a sequence of calls
  of add, activate, set_shutdown, set_timeout, remove and stop in which \<^verbatim>\<open>add\<close> is
  only called with a descriptor that is not in the registry at that moment leaves every
  descriptor at most once in the registry.
\<close>

theorem run_fresh_adds_distinct:
  "distinct (map el_fd (p_head p)) \<Longrightarrow> fresh_adds E ops p \<Longrightarrow> run E ops p = Returns u p' \<Longrightarrow>
     distinct (map el_fd (p_head p'))"
proof (induction ops arbitrary: p)
  case Nil
  then show ?case by simp
next
  case (Cons a ops)
  from Cons.prems(3) obtain r q where q: "exec E a p = Returns r q" "run E ops q = Returns u p'"
    by (auto split: outcome.splits)
  have fresh: "fresh_adds E ops q" using Cons.prems(2) q(1) by simp
  have "distinct (map el_fd (p_head q))"
  proof (cases a)
    case (Add c f x)
    with exec_effect [OF q(1)] obtain nel where "el_fd nel = c" "p_head q = p_head p @ [nel]"
      by auto
    moreover have "c \<notin> el_fd ` set (p_head p)" using Cons.prems(2) Add by simp
    ultimately show ?thesis using Cons.prems(1) by simp
  next
    case (Go c)
    with exec_effect [OF q(1)] Cons.prems(1) show ?thesis by (auto intro: touched_distinct)
  next
    case (Set_shutdown c f x)
    with exec_effect [OF q(1)] Cons.prems(1) show ?thesis by (auto intro: touched_distinct)
  next
    case (Set_timeout c t)
    with exec_effect [OF q(1)] Cons.prems(1) show ?thesis by (auto intro: touched_distinct)
  next
    case (Remove c)
    with exec_effect [OF q(1)] Cons.prems(1) show ?thesis by (auto intro: touched_distinct)
  next
    case Stop
    with exec_effect [OF q(1)] Cons.prems(1) show ?thesis by (auto intro: touched_distinct)
  qed
  from Cons.IH [OF this fresh q(2)] show ?case .
qed

lemma run_example:
  "run quiet [Add 5 1 2, Go 5, Add 6 1 4, Remove 5] (the (onion_poller_new 4 3)) =
     Returns ()
       \<lparr>p_fd = 3, p_stop = 0, p_n = 1, p_mutex = False, p_npollers = 0,
        p_head = [\<lparr>el_addr = 2, el_fd = 6, el_f = 1, el_data = 4,
                   el_shutdown = 0, el_shutdown_data = 0,
                   el_delta_timeout = - 1, el_timeout = - 1, el_mutex = False, el_active = 0\<rparr>],
        calls = [Epoll_create 4 3,
                 Epoll_ctl 3 EPOLL_CTL_ADD 5
                   (Some \<lparr>ev_events = EPOLLIN OR EPOLLHUP OR EPOLLONESHOT, ev_ptr = 1\<rparr>) 0,
                 Epoll_ctl 3 EPOLL_CTL_DEL 5 None 0, Free_el 1],
        logs = [(DEBUG0, ''Adding fd %d for polling (%d)''),
                (DEBUG0, ''Adding fd %d for polling (%d)''),
                (DEBUG0, ''Trying to remove fd %d (%d)''),
                (DEBUG0, ''Removed from head %p'')],
        brk = 3\<rparr>"
  by (simp add: onion_poller_new_def onion_poller_add_def onion_poller_go_def
      onion_poller_find_fd_and_lock_def onion_poller_remove_def onion_poller_free_element_def
      upd_el_def quiet_def Let_def log_def sys_def)

theorem run_fresh_adds_distinct_witness:
  "distinct (map el_fd (p_head (the (onion_poller_new 4 3)))) \<and>
   fresh_adds quiet [Add 5 1 2, Go 5, Add 6 1 4, Remove 5] (the (onion_poller_new 4 3)) \<and>
   registry_fds (run quiet [Add 5 1 2, Go 5, Add 6 1 4, Remove 5] (the (onion_poller_new 4 3))) = Some [6] \<and>
   distinct [6 :: int]"
proof -
  let ?p = "the (onion_poller_new 4 3)"
  let ?ops = "[Add 5 1 2, Go 5, Add 6 1 4, Remove 5]"
  have d: "distinct (map el_fd (p_head ?p))" by (simp add: onion_poller_new_def)
  have f: "fresh_adds quiet ?ops ?p"
    by (simp add: onion_poller_new_def onion_poller_add_def onion_poller_go_def
      onion_poller_find_fd_and_lock_def onion_poller_remove_def onion_poller_free_element_def
      upd_el_def quiet_def Let_def log_def sys_def)
  obtain q where q: "run quiet ?ops ?p = Returns () q" "map el_fd (p_head q) = [6]"
    using run_example by simp
  from run_fresh_adds_distinct [OF d f q(1)] q show ?thesis
    using d f by (simp add: registry_fds_def)
qed

subsection \<open>A node whose mutex is never released\<close>

lemma find_fd_update:
  "k < length xs \<Longrightarrow> el_fd y = el_fd (xs ! k) \<Longrightarrow> find_fd d (xs[k := y]) = find_fd d xs"
proof (induction xs arbitrary: k)
  case Nil
  then show ?case by simp
next
  case (Cons x xs)
  then show ?case by (cases k) auto
qed

lemma find_fd_append: "find_fd d xs = Some j \<Longrightarrow> find_fd d (xs @ ys) = Some j"
  by (induction xs arbitrary: j) (auto split: if_splits)

lemma find_fd_del:
  "find_fd d xs = Some j \<Longrightarrow> k \<noteq> j \<Longrightarrow> k < length xs \<Longrightarrow>
     \<exists>j'. find_fd d (take k xs @ drop (Suc k) xs) = Some j' \<and>
          (take k xs @ drop (Suc k) xs) ! j' = xs ! j"
proof (induction xs arbitrary: j k)
  case Nil
  then show ?case by simp
next
  case (Cons x xs)
  show ?case
  proof (cases k)
    case 0
    with Cons.prems show ?thesis by (auto split: if_splits)
  next
    case (Suc k')
    show ?thesis
    proof (cases "el_fd x = d")
      case True
      with Cons.prems Suc show ?thesis by simp
    next
      case False
      with Cons.prems obtain j0 where j0: "find_fd d xs = Some j0" "j = Suc j0" by auto
      with Cons.prems Suc have "k' \<noteq> j0" "k' < length xs" by simp_all
      from Cons.IH [OF j0(1) this] False Suc j0(2) show ?thesis by auto
    qed
  qed
qed

lemma touched_keeps_locked:
  assumes "touched xs ys" and "find_fd d xs = Some j" and "el_mutex (xs ! j)"
  shows "\<exists>j'. find_fd d ys = Some j' \<and> ys ! j' = xs ! j"
  using assms
proof (induction rule: touched.induct)
  case (same xs)
  then show ?case by simp
next
  case (upd k xs y)
  then have "k \<noteq> j" by auto
  with upd show ?case by (simp add: find_fd_update)
next
  case (del k xs)
  then have "k \<noteq> j" by auto
  with del show ?case by (simp add: find_fd_del)
qed

lemma exec_keeps_locked:
  assumes "exec E a p = Returns r p'" and "find_fd d (p_head p) = Some j"
    and "el_mutex (p_head p ! j)"
  shows "\<exists>j'. find_fd d (p_head p') = Some j' \<and> p_head p' ! j' = p_head p ! j"
proof (cases "\<exists>c f x. a = Add c f x")
  case True
  with exec_effect [OF assms(1)] obtain nel where "p_head p' = p_head p @ [nel]" by auto
  moreover have "j < length (p_head p)" using find_fd_Some [OF assms(2)] by simp
  ultimately show ?thesis using assms(2) by (simp add: find_fd_append nth_append)
next
  case False
  with exec_effect [OF assms(1)] have "touched (p_head p) (p_head p')"
    by (cases a) auto
  from touched_keeps_locked [OF this assms(2,3)] show ?thesis .
qed

lemma run_keeps_locked:
  "run E ops p = Returns u p' \<Longrightarrow> find_fd d (p_head p) = Some j \<Longrightarrow> el_mutex (p_head p ! j) \<Longrightarrow>
     \<exists>j'. find_fd d (p_head p') = Some j' \<and> p_head p' ! j' = p_head p ! j"
proof (induction ops arbitrary: p j)
  case Nil
  then show ?case by simp
next
  case (Cons a ops)
  from Cons.prems(1) obtain r q where q: "exec E a p = Returns r q" "run E ops q = Returns u p'"
    by (auto split: outcome.splits)
  from exec_keeps_locked [OF q(1) Cons.prems(2,3)] obtain j1 where
    j1: "find_fd d (p_head q) = Some j1" "p_head q ! j1 = p_head p ! j" by blast
  with Cons.prems(3) have "el_mutex (p_head q ! j1)" by simp
  from Cons.IH [OF q(2) j1(1) this] j1(2) show ?case by simp
qed

lemma find_addr_Some:
  "find_addr a els = Some i \<Longrightarrow> i < length els \<and> el_addr (els ! i) = a"
  by (induction els arbitrary: i) (auto split: if_splits)

lemma find_addr_update:
  "k < length xs \<Longrightarrow> el_addr y = el_addr (xs ! k) \<Longrightarrow> find_addr a (xs[k := y]) = find_addr a xs"
proof (induction xs arbitrary: k)
  case Nil
  then show ?case by simp
next
  case (Cons x xs)
  then show ?case by (cases k) auto
qed

text \<open>Every function that looks the descriptor up waits for the mutex of its first node.\<close>

lemma locked_blocks:
  assumes "\<not> p_mutex p" and "find_fd d (p_head p) = Some i" and "el_mutex (p_head p ! i)"
  shows "onion_poller_go E p d = Blocks (El_mutex (el_addr (p_head p ! i))) (p\<lparr>p_mutex := True\<rparr>)"
    and "onion_poller_set_shutdown p d hook data =
           Blocks (El_mutex (el_addr (p_head p ! i))) (p\<lparr>p_mutex := True\<rparr>)"
    and "onion_poller_set_timeout p d tmo =
           Blocks (El_mutex (el_addr (p_head p ! i))) (p\<lparr>p_mutex := True\<rparr>)"
  using assms
  by (simp_all add: onion_poller_go_def onion_poller_set_shutdown_def onion_poller_set_timeout_def
      onion_poller_find_fd_and_lock_def)

lemma locked_dispatch_blocks:
  "find_addr a (p_head p) = Some i \<Longrightarrow> el_mutex (p_head p ! i) \<Longrightarrow>
     dispatch E a p = Blocks (El_mutex a) p"
  by (simp add: dispatch_def)

text \<open>
  C10. \<^verbatim>\<open>onion_poller_go\<close> on a descriptor whose first node is at position \<open>i\<close>, with
  both mutexes free and \<^verbatim>\<open>epoll_ctl\<close> returning a negative value, returns \<open>1\<close> and
  leaves the mutex of the node held. In the state it returns, \<^verbatim>\<open>onion_poller_go\<close>,
  \<^verbatim>\<open>onion_poller_set_shutdown\<close> and \<^verbatim>\<open>onion_poller_set_timeout\<close> on the same
  descriptor and the dispatch of an event for that node all wait for that mutex, and so
  they do after any sequence of calls of the poller that returned: the node is still the
  one a lookup of the descriptor finds, and its mutex is still held.
\<close>

theorem go_failure_leaks_lock:
  assumes "\<not> p_mutex p" and "find_fd d (p_head p) = Some i" and "\<not> el_mutex (p_head p ! i)"
    and "find_addr (el_addr (p_head p ! i)) (p_head p) = Some i"
    and "epoll_ctl_ret E EPOLL_CTL_ADD d
           (p\<lparr>p_head := (p_head p)[i := (p_head p ! i)\<lparr>el_mutex := True, el_active := 1\<rparr>]\<rparr>) < 0"
  shows "\<exists>p'. onion_poller_go E p d = Returns 1 p' \<and> \<not> p_mutex p' \<and>
           (let a = el_addr (p_head p ! i) in
              (\<exists>q. onion_poller_go E1 p' d = Blocks (El_mutex a) q) \<and>
              (\<exists>q. onion_poller_set_shutdown p' d hook data = Blocks (El_mutex a) q) \<and>
              (\<exists>q. onion_poller_set_timeout p' d tmo = Blocks (El_mutex a) q) \<and>
              (\<exists>q. dispatch E1 a p' = Blocks (El_mutex a) q) \<and>
              (\<forall>E2 ops u p2. run E2 ops p' = Returns u p2 \<longrightarrow>
                 (\<exists>j q. find_fd d (p_head p2) = Some j \<and> el_addr (p_head p2 ! j) = a \<and>
                        el_mutex (p_head p2 ! j) \<and>
                        onion_poller_go E1 p2 d = Blocks (El_mutex a) q)))"
proof -
  let ?xs = "p_head p"
  let ?e = "(?xs ! i)\<lparr>el_mutex := True, el_active := 1\<rparr>"
  let ?a = "el_addr (?xs ! i)"
  have i: "i < length ?xs" using find_fd_Some [OF assms(2)] by simp
  obtain p' where go: "onion_poller_go E p d = Returns 1 p'" and h: "p_head p' = ?xs[i := ?e]"
    and m: "\<not> p_mutex p'"
    using assms(1,2,3,5) i
    by (simp add: onion_poller_go_def onion_poller_find_fd_and_lock_def upd_el_def Let_def
        sys_def log_def)
  have fd: "find_fd d (p_head p') = Some i"
    using h i assms(2) by (simp add: find_fd_update)
  have ad: "find_addr ?a (p_head p') = Some i"
    using h i assms(4) by (simp add: find_addr_update)
  have lk: "el_mutex (p_head p' ! i)" and a: "el_addr (p_head p' ! i) = ?a"
    using h i by simp_all
  have stable: "\<exists>j q. find_fd d (p_head p2) = Some j \<and> el_addr (p_head p2 ! j) = ?a \<and>
                  el_mutex (p_head p2 ! j) \<and> onion_poller_go E1 p2 d = Blocks (El_mutex ?a) q"
    if r: "run E2 ops p' = Returns u p2" for E2 ops u p2
  proof -
    from run_keeps_locked [OF r fd lk] obtain j where
      j: "find_fd d (p_head p2) = Some j" "p_head p2 ! j = p_head p' ! i" by blast
    have "\<not> p_mutex p2" using run_frame [OF r] m by (simp add: frame_def)
    from locked_blocks(1) [OF this j(1), of E1] j(2) lk a j(1) show ?thesis by simp
  qed
  have c1: "\<exists>q. onion_poller_go E1 p' d = Blocks (El_mutex ?a) q"
    using locked_blocks(1) [OF m fd lk, of E1] a by simp
  have c2: "\<exists>q. onion_poller_set_shutdown p' d hook data = Blocks (El_mutex ?a) q"
    using locked_blocks(2) [OF m fd lk, of hook data] a by simp
  have c3: "\<exists>q. onion_poller_set_timeout p' d tmo = Blocks (El_mutex ?a) q"
    using locked_blocks(3) [OF m fd lk, of tmo] a by simp
  have c4: "\<exists>q. dispatch E1 ?a p' = Blocks (El_mutex ?a) q"
    using locked_dispatch_blocks [OF ad lk, of E1] by simp
  have c5: "\<forall>E2 ops u p2. run E2 ops p' = Returns u p2 \<longrightarrow>
                 (\<exists>j q. find_fd d (p_head p2) = Some j \<and> el_addr (p_head p2 ! j) = ?a \<and>
                        el_mutex (p_head p2 ! j) \<and>
                        onion_poller_go E1 p2 d = Blocks (El_mutex ?a) q)"
    using stable by blast
  show ?thesis
    unfolding Let_def
    apply (rule exI [of _ p'])
    using go m c1 c2 c3 c4 c5 by (intro conjI) assumption+
qed

theorem go_failure_leaks_lock_witness:
  "\<not> p_mutex one_el \<and> find_fd 5 (p_head one_el) = Some 0 \<and> \<not> el_mutex (p_head one_el ! 0) \<and>
   find_addr 1 (p_head one_el) = Some 0 \<and>
   epoll_ctl_ret failing EPOLL_CTL_ADD 5 one_el < 0 \<and>
   (\<exists>p'. onion_poller_go failing one_el 5 = Returns 1 p' \<and> \<not> p_mutex p' \<and>
         (\<exists>q. onion_poller_go quiet p' 5 = Blocks (El_mutex 1) q) \<and>
         (\<exists>q. onion_poller_set_shutdown p' 5 8 2 = Blocks (El_mutex 1) q) \<and>
         (\<exists>q. onion_poller_set_timeout p' 5 1000 = Blocks (El_mutex 1) q) \<and>
         (\<exists>q. dispatch quiet 1 p' = Blocks (El_mutex 1) q))"
proof -
  have a1: "el_addr (p_head one_el ! 0) = 1" by (simp add: one_el_def)
  have a: "\<not> p_mutex one_el" and b: "find_fd 5 (p_head one_el) = Some 0"
    and c: "\<not> el_mutex (p_head one_el ! 0)"
    and d: "find_addr (el_addr (p_head one_el ! 0)) (p_head one_el) = Some 0"
    and e: "epoll_ctl_ret failing EPOLL_CTL_ADD 5
              (one_el\<lparr>p_head := (p_head one_el)[0 := (p_head one_el ! 0)\<lparr>el_mutex := True, el_active := 1\<rparr>]\<rparr>) < 0"
    and e': "epoll_ctl_ret failing EPOLL_CTL_ADD 5 one_el < 0"
    by (simp_all add: one_el_def failing_def)
  from go_failure_leaks_lock [OF a b c d e, of quiet 8 2 1000] obtain p' where
    p': "onion_poller_go failing one_el 5 = Returns 1 p'" "\<not> p_mutex p'"
      "\<exists>q. onion_poller_go quiet p' 5 = Blocks (El_mutex 1) q"
      "\<exists>q. onion_poller_set_shutdown p' 5 8 2 = Blocks (El_mutex 1) q"
      "\<exists>q. onion_poller_set_timeout p' 5 1000 = Blocks (El_mutex 1) q"
      "\<exists>q. dispatch quiet 1 p' = Blocks (El_mutex 1) q"
    unfolding Let_def a1 by blast
  have d': "find_addr 1 (p_head one_el) = Some 0" using d a1 by simp
  show ?thesis
    apply (intro conjI)
         apply (rule a)
        apply (rule b)
       apply (rule c)
      apply (rule d')
     apply (rule e')
    apply (rule exI [of _ p'])
    using p' by (intro conjI) assumption+
qed

subsection \<open>Dispatching one ready event\<close>

lemma free_element_returns:
  "\<not> el_mutex el \<Longrightarrow>
   \<exists>p1. onion_poller_free_element E q el = Returns () p1 \<and>
        calls p1 = calls q @ [Epoll_ctl (p_fd q) EPOLL_CTL_DEL (el_fd el) None
                                (epoll_ctl_ret E EPOLL_CTL_DEL (el_fd el) q)] @ el_calls el \<and>
        p_head p1 = p_head q \<and> p_n p1 = p_n q - 1"
  by (simp add: onion_poller_free_element_def Let_def sys_def log_def el_calls_def)

lemma dispatch_remove_path:
  assumes "find_addr a (p_head p) = Some i" and "\<not> el_mutex (p_head p ! i)"
    and "\<not> p_mutex p" and "find_fd (el_fd (p_head p ! i)) (p_head p) = Some i"
    and "callback E (el_f (p_head p ! i)) (el_data (p_head p ! i))
           (p\<lparr>p_head := (p_head p)[i := (p_head p ! i)\<lparr>el_mutex := True,
                el_delta_timeout := el_timeout (p_head p ! i)\<rparr>]\<rparr>) < 0"
  shows "\<exists>r p'. dispatch E a p = Returns () p' \<and>
           calls p' = calls p @ [Call_f (el_f (p_head p ! i)) (el_data (p_head p ! i)),
                                 Epoll_ctl (p_fd p) EPOLL_CTL_DEL (el_fd (p_head p ! i)) None r]
                        @ el_calls (p_head p ! i) \<and>
           p_head p' = take i (p_head p) @ drop (Suc i) (p_head p) \<and> p_n p' = p_n p - 1"
proof -
  let ?xs = "p_head p"
  let ?el = "?xs ! i"
  let ?seen = "p\<lparr>p_head := ?xs[i := ?el\<lparr>el_mutex := True, el_delta_timeout := el_timeout ?el\<rparr>]\<rparr>"
  let ?el' = "?el\<lparr>el_delta_timeout := el_timeout ?el, el_mutex := False\<rparr>"
  let ?q0 = "(sys (Call_f (el_f ?el) (el_data ?el)) ?seen)\<lparr>p_head := ?xs[i := ?el']\<rparr>"
  have i: "i < length ?xs" using find_addr_Some [OF assms(1)] by simp
  have d: "dispatch E a p =
             (case onion_poller_remove E ?q0 (el_fd ?el) of
                Returns r p3 \<Rightarrow> Returns () p3
              | Blocks b p3 \<Rightarrow> Blocks b p3
              | Fault \<Rightarrow> Fault)"
    using assms(1,2,5) i by (simp add: dispatch_def upd_el_def Let_def sys_def)
  have m: "\<not> p_mutex ?q0" using assms(3) by (simp add: sys_def)
  have f: "find_fd (el_fd ?el) (p_head ?q0) = Some i"
    using assms(4) i by (simp add: sys_def find_fd_update)
  from remove_found [OF m f, of E] obtain q where
    q: "p_head q = take i (p_head ?q0) @ drop (Suc i) (p_head ?q0)" "calls q = calls ?q0"
       "p_n q = p_n ?q0" "p_fd q = p_fd ?q0"
       "onion_poller_remove E ?q0 (el_fd ?el) =
          (case onion_poller_free_element E q (p_head ?q0 ! i) of
             Returns u p1 \<Rightarrow> Returns 0 (p1\<lparr>p_mutex := False\<rparr>)
           | Blocks b p1 \<Rightarrow> Blocks b p1
           | Fault \<Rightarrow> Fault)"
    by blast
  have n: "p_head ?q0 ! i = ?el'" using i by (simp add: sys_def)
  have "\<not> el_mutex ?el'" by simp
  from free_element_returns [OF this, of E q] obtain p1 where
    p1: "onion_poller_free_element E q ?el' = Returns () p1"
        "calls p1 = calls q @ [Epoll_ctl (p_fd q) EPOLL_CTL_DEL (el_fd ?el') None
                                 (epoll_ctl_ret E EPOLL_CTL_DEL (el_fd ?el') q)] @ el_calls ?el'"
        "p_head p1 = p_head q" "p_n p1 = p_n q - 1"
    by blast
  let ?p' = "p1\<lparr>p_mutex := False\<rparr>"
  have r: "dispatch E a p = Returns () ?p'" using d q(5) n p1(1) by simp
  have c: "calls ?p' = calls p @ [Call_f (el_f ?el) (el_data ?el),
                                 Epoll_ctl (p_fd p) EPOLL_CTL_DEL (el_fd ?el) None
                                   (epoll_ctl_ret E EPOLL_CTL_DEL (el_fd ?el) q)] @ el_calls ?el"
    using p1(2) q(2,4) by (simp add: sys_def el_calls_def)
  have h: "p_head ?p' = take i ?xs @ drop (Suc i) ?xs"
    using p1(3) q(1) i by (simp add: sys_def)
  have k: "p_n ?p' = p_n p - 1" using p1(4) q(3) by (simp add: sys_def)
  show ?thesis
    apply (rule exI [of _ "epoll_ctl_ret E EPOLL_CTL_DEL (el_fd ?el) q"])
    apply (rule exI [of _ ?p'])
    using r c h k by (intro conjI) assumption+
qed

lemma el_unlocked_reset:
  "\<not> el_mutex e \<Longrightarrow> e\<lparr>el_delta_timeout := t, el_mutex := False\<rparr> = e\<lparr>el_delta_timeout := t\<rparr>"
  by (cases e) simp

lemma dispatch_rearm_path:
  assumes "find_addr a (p_head p) = Some i" and "\<not> el_mutex (p_head p ! i)"
    and "0 \<le> callback E (el_f (p_head p ! i)) (el_data (p_head p ! i))
           (p\<lparr>p_head := (p_head p)[i := (p_head p ! i)\<lparr>el_mutex := True,
                el_delta_timeout := el_timeout (p_head p ! i)\<rparr>]\<rparr>)"
  shows "\<exists>r p'. dispatch E a p = Returns () p' \<and>
           calls p' = calls p @ [Call_f (el_f (p_head p ! i)) (el_data (p_head p ! i)),
                                 Epoll_ctl (p_fd p) EPOLL_CTL_MOD (el_fd (p_head p ! i))
                                   (Some \<lparr>ev_events = EPOLLIN OR EPOLLHUP OR EPOLLONESHOT, ev_ptr = a\<rparr>) r] \<and>
           p_head p' = (p_head p)[i := (p_head p ! i)\<lparr>el_delta_timeout := el_timeout (p_head p ! i)\<rparr>] \<and>
           p_n p' = p_n p"
proof -
  have i: "i < length (p_head p)" using find_addr_Some [OF assms(1)] by simp
  show ?thesis
    using assms i
    by (simp add: dispatch_def upd_el_def Let_def sys_def log_def el_unlocked_reset)
qed

text \<open>
  C5. One ready event for the node at position \<open>i\<close> whose mutex is free. The callback is
  called in the state \<open>seen\<close>, in which \<open>el_delta_timeout\<close> of the node already
  equals \<open>el_timeout\<close> and nothing has been called yet. When it returns a negative
  value (and the mutex of the poller is free and the node is the first with its
  descriptor), the dispatch makes after the callback exactly the calls of one removal:
  \<^verbatim>\<open>EPOLL_CTL_DEL\<close>, the shutdown hook if set, \<^verbatim>\<open>free\<close>; no
  \<^verbatim>\<open>EPOLL_CTL_MOD\<close>; the list has lost that node and the count is one less. When it
  returns a non-negative value the only call after the callback is \<^verbatim>\<open>EPOLL_CTL_MOD\<close>
  with \<^verbatim>\<open>EPOLLIN | EPOLLHUP | EPOLLONESHOT\<close>; the node stays, with its timeout
  reset, and the count is unchanged.
\<close>

theorem dispatch_spec:
  assumes "find_addr a (p_head p) = Some i" and "\<not> el_mutex (p_head p ! i)"
  shows "let el = p_head p ! i;
             seen = p\<lparr>p_head := (p_head p)[i := el\<lparr>el_mutex := True,
                                                    el_delta_timeout := el_timeout el\<rparr>]\<rparr>;
             n = callback E (el_f el) (el_data el) seen
         in el_delta_timeout (p_head seen ! i) = el_timeout el \<and> calls seen = calls p \<and>
            (n < 0 \<and> \<not> p_mutex p \<and> find_fd (el_fd el) (p_head p) = Some i \<longrightarrow>
               (\<exists>r p'. dispatch E a p = Returns () p' \<and>
                  calls p' = calls p @ [Call_f (el_f el) (el_data el),
                                        Epoll_ctl (p_fd p) EPOLL_CTL_DEL (el_fd el) None r]
                               @ el_calls el \<and>
                  p_head p' = take i (p_head p) @ drop (Suc i) (p_head p) \<and>
                  p_n p' = p_n p - 1)) \<and>
            (0 \<le> n \<longrightarrow>
               (\<exists>r p'. dispatch E a p = Returns () p' \<and>
                  calls p' = calls p @ [Call_f (el_f el) (el_data el),
                                        Epoll_ctl (p_fd p) EPOLL_CTL_MOD (el_fd el)
                                          (Some \<lparr>ev_events = EPOLLIN OR EPOLLHUP OR EPOLLONESHOT,
                                                 ev_ptr = a\<rparr>) r] \<and>
                  p_head p' = (p_head p)[i := el\<lparr>el_delta_timeout := el_timeout el\<rparr>] \<and>
                  p_n p' = p_n p))"
proof -
  have i: "i < length (p_head p)" using find_addr_Some [OF assms(1)] by simp
  show ?thesis
    unfolding Let_def
    using dispatch_remove_path [OF assms, of E] dispatch_rearm_path [OF assms, of E] i
    by (intro conjI impI) simp_all
qed

theorem dispatch_spec_witness:
  "find_addr 2 (p_head two_els) = Some 1 \<and> \<not> el_mutex (p_head two_els ! 1) \<and>
   \<not> p_mutex two_els \<and> find_fd 6 (p_head two_els) = Some 1 \<and>
   (\<exists>r p'. dispatch failing 2 two_els = Returns () p' \<and>
      calls p' = [Epoll_create 4 3, Call_f 1 4, Epoll_ctl 3 EPOLL_CTL_DEL 6 None r,
                  Call_shutdown 8 4, Free_el 2] \<and>
      map el_fd (p_head p') = [5] \<and> p_n p' = 1) \<and>
   (\<exists>r p'. dispatch quiet 2 two_els = Returns () p' \<and>
      calls p' = [Epoll_create 4 3, Call_f 1 4,
                  Epoll_ctl 3 EPOLL_CTL_MOD 6 (Some \<lparr>ev_events = 0x40000011, ev_ptr = 2\<rparr>) r] \<and>
      map el_fd (p_head p') = [5, 6] \<and> p_n p' = 2)"
proof -
  let ?el = "p_head two_els ! 1"
  let ?seen = "two_els\<lparr>p_head := (p_head two_els)[1 := ?el\<lparr>el_mutex := True,
                 el_delta_timeout := el_timeout ?el\<rparr>]\<rparr>"
  have a: "find_addr 2 (p_head two_els) = Some 1" and b: "\<not> el_mutex ?el"
    and c: "\<not> p_mutex two_els" and d: "find_fd 6 (p_head two_els) = Some 1"
    and d': "find_fd (el_fd ?el) (p_head two_els) = Some 1"
    by (simp_all add: two_els_def)
  have neg: "callback failing (el_f ?el) (el_data ?el) ?seen < 0"
    and pos: "0 \<le> callback quiet (el_f ?el) (el_data ?el) ?seen"
    by (simp_all add: failing_def quiet_def)
  from dispatch_spec [OF a b, of failing] neg c d' obtain r1 p1 where
    r1: "dispatch failing 2 two_els = Returns () p1"
    and c1: "calls p1 = calls two_els @ [Call_f (el_f ?el) (el_data ?el),
               Epoll_ctl (p_fd two_els) EPOLL_CTL_DEL (el_fd ?el) None r1] @ el_calls ?el"
    and h1: "p_head p1 = take 1 (p_head two_els) @ drop (Suc 1) (p_head two_els)"
    and n1: "p_n p1 = p_n two_els - 1"
    unfolding Let_def by blast
  from dispatch_spec [OF a b, of quiet] pos obtain r2 p2 where
    r2: "dispatch quiet 2 two_els = Returns () p2"
    and c2: "calls p2 = calls two_els @ [Call_f (el_f ?el) (el_data ?el),
               Epoll_ctl (p_fd two_els) EPOLL_CTL_MOD (el_fd ?el)
                 (Some \<lparr>ev_events = EPOLLIN OR EPOLLHUP OR EPOLLONESHOT, ev_ptr = 2\<rparr>) r2]"
    and h2: "p_head p2 = (p_head two_els)[1 := ?el\<lparr>el_delta_timeout := el_timeout ?el\<rparr>]"
    and n2: "p_n p2 = p_n two_els"
    unfolding Let_def by blast
  have c1': "calls p1 = [Epoll_create 4 3, Call_f 1 4, Epoll_ctl 3 EPOLL_CTL_DEL 6 None r1,
                  Call_shutdown 8 4, Free_el 2]"
    using c1 by (simp add: two_els_def el_calls_def)
  have h1': "map el_fd (p_head p1) = [5]" and n1': "p_n p1 = 1"
    using h1 n1 by (simp_all add: two_els_def)
  have c2': "calls p2 = [Epoll_create 4 3, Call_f 1 4,
                  Epoll_ctl 3 EPOLL_CTL_MOD 6 (Some \<lparr>ev_events = 0x40000011, ev_ptr = 2\<rparr>) r2]"
    using c2 by (simp add: two_els_def EPOLLIN_def EPOLLHUP_def EPOLLONESHOT_def)
  have h2': "map el_fd (p_head p2) = [5, 6]" and n2': "p_n p2 = 2"
    using h2 n2 by (simp_all add: two_els_def)
  have e1: "\<exists>r p'. dispatch failing 2 two_els = Returns () p' \<and>
      calls p' = [Epoll_create 4 3, Call_f 1 4, Epoll_ctl 3 EPOLL_CTL_DEL 6 None r,
                  Call_shutdown 8 4, Free_el 2] \<and>
      map el_fd (p_head p') = [5] \<and> p_n p' = 1"
    apply (rule exI [of _ r1])
    apply (rule exI [of _ p1])
    using r1 c1' h1' n1' by (intro conjI) assumption+
  have e2: "\<exists>r p'. dispatch quiet 2 two_els = Returns () p' \<and>
      calls p' = [Epoll_create 4 3, Call_f 1 4,
                  Epoll_ctl 3 EPOLL_CTL_MOD 6 (Some \<lparr>ev_events = 0x40000011, ev_ptr = 2\<rparr>) r] \<and>
      map el_fd (p_head p') = [5, 6] \<and> p_n p' = 2"
    apply (rule exI [of _ r2])
    apply (rule exI [of _ p2])
    using r2 c2' h2' n2' by (intro conjI) assumption+
  from a b c d e1 e2 show ?thesis by (intro conjI) assumption+
qed

subsection \<open>The poll loop\<close>

lemma dispatch_frame:
  assumes "dispatch E a p = Returns u p'"
  shows "frame p p'"
proof (cases "find_addr a (p_head p)")
  case None
  with assms show ?thesis by (simp add: dispatch_def)
next
  case (Some i)
  let ?el = "p_head p ! i"
  let ?seen = "upd_el i (\<lambda>e. e\<lparr>el_mutex := True, el_delta_timeout := el_timeout e\<rparr>) p"
  let ?n = "callback E (el_f (p_head ?seen ! i)) (el_data (p_head ?seen ! i)) ?seen"
  have lk: "\<not> el_mutex ?el" using assms Some by (auto simp: dispatch_def split: if_splits)
  show ?thesis
  proof (cases "?n < 0")
    case True
    let ?q0 = "upd_el i (\<lambda>e. e\<lparr>el_mutex := False\<rparr>)
                 (sys (Call_f (el_f (p_head ?seen ! i)) (el_data (p_head ?seen ! i))) ?seen)"
    from assms Some lk True obtain r where
      r: "onion_poller_remove E ?q0 (el_fd (p_head ?seen ! i)) = Returns r p'"
      by (auto simp: dispatch_def Let_def split: outcome.splits)
    have "frame p ?q0" by (simp add: frame_def capped_def upd_el_def sys_def)
    with remove_touched [OF r] show ?thesis by (blast intro: frame_trans)
  next
    case False
    with assms Some lk show ?thesis
      by (auto simp: dispatch_def Let_def frame_def capped_def upd_el_def sys_def log_def
          split: if_splits)
  qed
qed

lemma dispatch_all_frame: "dispatch_all E ptrs p = Returns u p' \<Longrightarrow> frame p p'"
proof (induction ptrs arbitrary: p)
  case Nil
  then show ?case by (simp add: frame_def)
next
  case (Cons a ptrs)
  from Cons.prems obtain v q where q: "dispatch E a p = Returns v q" "dispatch_all E ptrs q = Returns u p'"
    by (auto split: outcome.splits)
  from dispatch_frame [OF q(1)] Cons.IH [OF q(2)] show ?case by (rule frame_trans)
qed

lemma poll_finish_returns:
  "poll_finish p = Returns u p' \<Longrightarrow>
     p_npollers p' = p_npollers p - 1 \<and> p_fd p' = p_fd p \<and> p_stop p' = p_stop p \<and>
     p_head p' = p_head p \<and> (capped p \<longrightarrow> capped p')"
  by (auto simp: poll_finish_def Let_def log_def capped_def split: if_splits)

lemma poll_return_returns:
  "poll_return p = Returns u p' \<Longrightarrow>
     p_npollers p' = p_npollers p - 1 \<and> p_fd p' = p_fd p \<and> p_stop p' = p_stop p \<and>
     p_head p' = p_head p \<and> (capped p \<longrightarrow> capped p')"
  by (auto simp: poll_return_def Let_def log_def capped_def split: if_splits)

lemma poll_loop_returns:
  "poll_loop E ws p = Returns u p' \<Longrightarrow>
     p_npollers p' = p_npollers p - 1 \<and> p_fd p' = p_fd p \<and>
     (p_stop p' \<noteq> 0 \<or> p_head p' = [] \<or> p_fd p' < 0) \<and> (capped p \<longrightarrow> capped p')"
proof (induction ws arbitrary: p)
  case Nil
  then show ?case by (auto split: if_splits dest: poll_finish_returns)
next
  case (Cons x ws)
  obtain others w where x: "x = (others, w)" by (cases x)
  show ?case
  proof (cases "p_stop p = 0 \<and> p_head p \<noteq> []")
    case False
    with Cons.prems x show ?thesis by (auto dest: poll_finish_returns)
  next
    case True
    let ?p0 = "sys (Epoll_wait (p_fd p) MAX_EVENTS (- 1)) p"
    from Cons.prems x True obtain v p1 where p1: "run E others ?p0 = Returns v p1"
      by (auto split: outcome.splits)
    have f0: "frame p ?p0" by (simp add: frame_def capped_def sys_def)
    have f1: "frame p p1" using f0 run_frame [OF p1] by (rule frame_trans)
    obtain nfds event where ev: "epoll_wait MAX_EVENTS w = (nfds, event)"
      by (cases "epoll_wait MAX_EVENTS w")
    show ?thesis
    proof (cases "nfds < 0")
      case fail: True
      let ?p2 = "log DEBUG ''Some error happened'' p1"
      have f2: "frame p ?p2" using f1 by (simp add: frame_def capped_def log_def)
      show ?thesis
      proof (cases "p_fd ?p2 < 0 \<or> p_head ?p2 = []")
        case exit: True
        with Cons.prems x True p1 ev fail have "poll_return ?p2 = Returns u p'"
          by (simp add: Let_def)
        from poll_return_returns [OF this] f2 exit show ?thesis
          by (auto simp: frame_def)
      next
        case cont: False
        with Cons.prems x True p1 ev fail obtain v' p3 where
          p3: "dispatch_all E event ?p2 = Returns v' p3" "poll_loop E ws p3 = Returns u p'"
          by (auto simp: Let_def split: outcome.splits)
        have f3: "frame p p3" using f2 dispatch_all_frame [OF p3(1)] by (rule frame_trans)
        from Cons.IH [OF p3(2)] f3 show ?thesis by (auto simp: frame_def)
      qed
    next
      case ok: False
      with Cons.prems x True p1 ev obtain v' p3 where
        p3: "dispatch_all E event p1 = Returns v' p3" "poll_loop E ws p3 = Returns u p'"
        by (auto simp: Let_def split: outcome.splits)
      have f3: "frame p p3" using f1 dispatch_all_frame [OF p3(1)] by (rule frame_trans)
      from Cons.IH [OF p3(2)] f3 show ?thesis by (auto simp: frame_def)
    qed
  qed
qed


text \<open>
  C8. (1) When \<^verbatim>\<open>onion_poller_poll\<close> returns, the count of polling threads is what it
  was before the call (incremented once, decremented once), and the stop flag is set, or
  the list is empty, or the loop was left after a failed wait with \<open>p_fd < 0\<close>; every
  \<^verbatim>\<open>epoll_wait\<close> it made asked for at most \<open>MAX_EVENTS = 10\<close> events. (2) At the
  head of the loop a set stop flag or an empty list ends the loop with the count
  decremented. (3) Otherwise the loop calls \<^verbatim>\<open>epoll_wait\<close> for 10 events, and does
  not return while that call does not return. (4) After a wait during which other
  threads completed the calls \<open>others\<close>: a failed wait with \<open>p_fd < 0\<close> or an empty list
  ends the loop with the count decremented; any other failed wait is logged and the loop
  goes on; a successful wait dispatches at most 10 events and the loop goes on.
\<close>

theorem poll_loop_spec:
  "(onion_poller_poll E ws p = Returns u p' \<longrightarrow>
       p_npollers p' = p_npollers p \<and> (p_stop p' \<noteq> 0 \<or> p_head p' = [] \<or> p_fd p' < 0) \<and>
       (capped p \<longrightarrow> capped p')) \<and>
   ((p_stop p \<noteq> 0 \<or> p_head p = []) \<and> \<not> p_mutex p \<longrightarrow>
       (\<exists>q. poll_loop E ws p = Returns () q \<and> p_npollers q = p_npollers p - 1)) \<and>
   (p_stop p = 0 \<and> p_head p \<noteq> [] \<longrightarrow>
       (\<exists>q. poll_loop E [] p = Blocks In_epoll_wait q \<and>
            calls q = calls p @ [Epoll_wait (p_fd p) 10 (- 1)])) \<and>
   (p_stop p = 0 \<and> p_head p \<noteq> [] \<and>
    run E others (sys (Epoll_wait (p_fd p) MAX_EVENTS (- 1)) p) = Returns () p1 \<longrightarrow>
       ((p_fd p1 < 0 \<or> p_head p1 = []) \<and> \<not> p_mutex p1 \<longrightarrow>
           (\<exists>q. poll_loop E ((others, Wait_failed) # ws) p = Returns () q \<and>
                p_npollers q = p_npollers p - 1)) \<and>
       (0 \<le> p_fd p1 \<and> p_head p1 \<noteq> [] \<longrightarrow>
           poll_loop E ((others, Wait_failed) # ws) p =
             poll_loop E ws (log DEBUG ''Some error happened'' p1)) \<and>
       poll_loop E ((others, Wait_ready ptrs) # ws) p =
         (case dispatch_all E (take 10 ptrs) p1 of
            Returns v p3 \<Rightarrow> poll_loop E ws p3
          | Blocks b p3 \<Rightarrow> Blocks b p3
          | Fault \<Rightarrow> Fault))"
proof (intro conjI impI)
  assume r: "onion_poller_poll E ws p = Returns u p'"
  let ?p1 = "(log DEBUG0 ''Start poll of fds'' p)\<lparr>p_stop := 0\<rparr>"
  let ?q = "log DEBUG0 ''Npollers %d. %d listenings %p'' (?p1\<lparr>p_npollers := p_npollers ?p1 + 1\<rparr>)"
  from r have l: "poll_loop E ws ?q = Returns u p'"
    by (simp add: onion_poller_poll_def Let_def log_def split: if_splits)
  have q: "p_npollers ?q = p_npollers p + 1" "p_fd ?q = p_fd p" "capped ?q = capped p"
    by (simp_all add: log_def capped_def)
  from poll_loop_returns [OF l] q
  show "p_npollers p' = p_npollers p" and "p_stop p' \<noteq> 0 \<or> p_head p' = [] \<or> p_fd p' < 0"
    by auto
  assume "capped p"
  with poll_loop_returns [OF l] q show "capped p'" by simp
next
  assume "(p_stop p \<noteq> 0 \<or> p_head p = []) \<and> \<not> p_mutex p"
  then show "\<exists>q. poll_loop E ws p = Returns () q \<and> p_npollers q = p_npollers p - 1"
    by (cases ws) (auto simp: poll_finish_def Let_def log_def)
next
  assume "p_stop p = 0 \<and> p_head p \<noteq> []"
  then show "\<exists>q. poll_loop E [] p = Blocks In_epoll_wait q \<and>
            calls q = calls p @ [Epoll_wait (p_fd p) 10 (- 1)]"
    by (simp add: sys_def MAX_EVENTS_def)
next
  assume a: "p_stop p = 0 \<and> p_head p \<noteq> [] \<and>
    run E others (sys (Epoll_wait (p_fd p) MAX_EVENTS (- 1)) p) = Returns () p1"
  assume b: "(p_fd p1 < 0 \<or> p_head p1 = []) \<and> \<not> p_mutex p1"
  have "frame p p1"
    using a run_frame [of E others "sys (Epoll_wait (p_fd p) MAX_EVENTS (- 1)) p" "()" p1]
    by (simp add: frame_def capped_def sys_def)
  then have n: "p_npollers p1 = p_npollers p" by (simp add: frame_def)
  let ?q = "(log DEBUG ''Finishing the epoll as finished: %s''
              (log DEBUG ''Some error happened'' p1))\<lparr>p_npollers := p_npollers p1 - 1\<rparr>"
  have "poll_loop E ((others, Wait_failed) # ws) p = Returns () ?q"
    using a b by (auto simp: epoll_wait_def poll_return_def Let_def log_def)
  moreover have "p_npollers ?q = p_npollers p - 1" using n by simp
  ultimately show "\<exists>q. poll_loop E ((others, Wait_failed) # ws) p = Returns () q \<and>
                p_npollers q = p_npollers p - 1"
    by blast
next
  assume a: "p_stop p = 0 \<and> p_head p \<noteq> [] \<and>
    run E others (sys (Epoll_wait (p_fd p) MAX_EVENTS (- 1)) p) = Returns () p1"
  assume b: "0 \<le> p_fd p1 \<and> p_head p1 \<noteq> []"
  show "poll_loop E ((others, Wait_failed) # ws) p =
             poll_loop E ws (log DEBUG ''Some error happened'' p1)"
    using a b by (simp add: epoll_wait_def Let_def log_def)
next
  assume a: "p_stop p = 0 \<and> p_head p \<noteq> [] \<and>
    run E others (sys (Epoll_wait (p_fd p) MAX_EVENTS (- 1)) p) = Returns () p1"
  show "poll_loop E ((others, Wait_ready ptrs) # ws) p =
         (case dispatch_all E (take 10 ptrs) p1 of
            Returns v p3 \<Rightarrow> poll_loop E ws p3
          | Blocks b p3 \<Rightarrow> Blocks b p3
          | Fault \<Rightarrow> Fault)"
    using a by (simp add: epoll_wait_def Let_def MAX_EVENTS_def)
qed

theorem poll_loop_spec_witness:
  "capped one_el \<and>
   (\<exists>p'. onion_poller_poll quiet [([], Wait_failed), ([Stop], Wait_ready [1])] one_el = Returns () p' \<and>
         p_npollers p' = 0 \<and> p_stop p' = 1 \<and> capped p' \<and>
         calls p' = [Epoll_create 4 3, Epoll_wait 3 10 (- 1), Epoll_wait 3 10 (- 1), Call_f 1 2,
                     Epoll_ctl 3 EPOLL_CTL_MOD 5 (Some \<lparr>ev_events = 0x40000011, ev_ptr = 1\<rparr>) 0]) \<and>
   p_stop (onion_poller_stop one_el) \<noteq> 0 \<and> \<not> p_mutex (onion_poller_stop one_el) \<and>
   (\<exists>q. poll_loop quiet [] (onion_poller_stop one_el) = Returns () q \<and> p_npollers q = - 1) \<and>
   p_stop one_el = 0 \<and> p_head one_el \<noteq> [] \<and>
   (\<exists>q. poll_loop quiet [] one_el = Blocks In_epoll_wait q \<and>
        calls q = [Epoll_create 4 3, Epoll_wait 3 10 (- 1)])"
proof -
  let ?ws = "[([], Wait_failed), ([Stop], Wait_ready [1])]"
  have c: "capped one_el" by (simp add: capped_def one_el_def)
  obtain p' where
    r: "onion_poller_poll quiet ?ws one_el = Returns () p'"
    and s: "p_stop p' = 1"
    and cs: "calls p' = [Epoll_create 4 3, Epoll_wait 3 10 (- 1), Epoll_wait 3 10 (- 1), Call_f 1 2,
                     Epoll_ctl 3 EPOLL_CTL_MOD 5 (Some \<lparr>ev_events = 0x40000011, ev_ptr = 1\<rparr>) 0]"
    by (simp add: onion_poller_poll_def one_el_def quiet_def epoll_wait_def dispatch_def
        onion_poller_stop_def poll_finish_def upd_el_def MAX_EVENTS_def
        EPOLLIN_def EPOLLHUP_def EPOLLONESHOT_def Let_def log_def sys_def)
  from poll_loop_spec [of quiet ?ws one_el "()" p'] r c
  have n: "p_npollers p' = p_npollers one_el" and c': "capped p'" by blast+
  have n': "p_npollers p' = 0" using n by (simp add: one_el_def)
  have e1: "\<exists>p'. onion_poller_poll quiet ?ws one_el = Returns () p' \<and>
         p_npollers p' = 0 \<and> p_stop p' = 1 \<and> capped p' \<and>
         calls p' = [Epoll_create 4 3, Epoll_wait 3 10 (- 1), Epoll_wait 3 10 (- 1), Call_f 1 2,
                     Epoll_ctl 3 EPOLL_CTL_MOD 5 (Some \<lparr>ev_events = 0x40000011, ev_ptr = 1\<rparr>) 0]"
    apply (rule exI [of _ p'])
    using r n' s c' cs by (intro conjI) assumption+
  let ?s = "onion_poller_stop one_el"
  have st: "p_stop ?s \<noteq> 0" and m: "\<not> p_mutex ?s" and np: "p_npollers ?s = 0"
    by (simp_all add: onion_poller_stop_def one_el_def)
  from poll_loop_spec [of quiet "[]" ?s] st m obtain q where
    "poll_loop quiet [] ?s = Returns () q" "p_npollers q = p_npollers ?s - 1"
    by blast
  then have e2: "\<exists>q. poll_loop quiet [] ?s = Returns () q \<and> p_npollers q = - 1"
    using np by auto
  have z: "p_stop one_el = 0" and h: "p_head one_el \<noteq> []"
    and cz: "calls one_el = [Epoll_create 4 3]" and fz: "p_fd one_el = 3"
    by (simp_all add: one_el_def)
  from poll_loop_spec [of quiet "[]" one_el] z h obtain q where
    "poll_loop quiet [] one_el = Blocks In_epoll_wait q"
    "calls q = calls one_el @ [Epoll_wait (p_fd one_el) 10 (- 1)]"
    by blast
  then have e3: "\<exists>q. poll_loop quiet [] one_el = Blocks In_epoll_wait q \<and>
        calls q = [Epoll_create 4 3, Epoll_wait 3 10 (- 1)]"
    using cz fz by auto
  from c e1 st m e2 z h e3 show ?thesis by (intro conjI) assumption+
qed

subsection \<open>Removing a descriptor whose activation failed\<close>

lemma hooked_el_reached:
  "run failing [Add 5 1 2, Set_shutdown 5 8 2] (the (onion_poller_new 4 3)) = Returns () hooked_el"
  by (simp add: onion_poller_new_def onion_poller_add_def onion_poller_set_shutdown_def
      onion_poller_find_fd_and_lock_def is_NULL_def upd_el_def hooked_el_def Let_def log_def)

text \<open>
  Removal of a descriptor whose first node has its mutex held: the node is unlinked under
  the mutex of the poller, and the thread then waits for the mutex of the node in
  \<^verbatim>\<open>onion_poller_free_element\<close>, before any call and before the count is decremented.
\<close>

lemma remove_locked_blocks:
  assumes "\<not> p_mutex p" and "find_fd d (p_head p) = Some i" and "el_mutex (p_head p ! i)"
  shows "\<exists>q. onion_poller_remove E p d = Blocks (El_mutex (el_addr (p_head p ! i))) q \<and>
           p_head q = take i (p_head p) @ drop (Suc i) (p_head p) \<and>
           calls q = calls p \<and> p_n q = p_n p \<and> p_mutex q"
proof -
  from remove_found [OF assms(1,2), of E] obtain q where
    q: "p_head q = take i (p_head p) @ drop (Suc i) (p_head p)" "calls q = calls p" "p_n q = p_n p"
       "p_mutex q"
       "onion_poller_remove E p d =
          (case onion_poller_free_element E q (p_head p ! i) of
             Returns u p1 \<Rightarrow> Returns 0 (p1\<lparr>p_mutex := False\<rparr>)
           | Blocks b p1 \<Rightarrow> Blocks b p1
           | Fault \<Rightarrow> Fault)"
    by blast
  have "onion_poller_remove E p d = Blocks (El_mutex (el_addr (p_head p ! i))) q"
    using q(5) assms(3) by (simp add: onion_poller_free_element_def)
  with q(1-4) show ?thesis by blast
qed

text \<open>
  C4. The claim: for every descriptor in the registry, \<^verbatim>\<open>remove\<close> unlinks the entry,
  de-registers it, runs its shutdown hook once, frees it and decrements the count. The
  claim fails for a descriptor whose activation failed: \<^verbatim>\<open>onion_poller_go\<close> returns
  \<open>1\<close> on a failed \<^verbatim>\<open>epoll_ctl\<close> without unlocking the node. What is proved: for a
  descriptor whose first node is at position \<open>i\<close>, with both mutexes free and
  \<^verbatim>\<open>epoll_ctl(EPOLL_CTL_ADD)\<close> returning a negative value, \<^verbatim>\<open>onion_poller_go\<close>
  returns \<open>1\<close>, and \<^verbatim>\<open>onion_poller_remove\<close> of the descriptor in the state it returns
  never returns: it has unlinked the node and waits for the mutex of the node while it
  holds the mutex of the poller, having made no call (no \<^verbatim>\<open>EPOLL_CTL_DEL\<close>, no hook, no
  \<^verbatim>\<open>free\<close>) and with the count not decremented.
\<close>

theorem remove_after_failed_go_blocks:
  assumes "\<not> p_mutex p" and "find_fd d (p_head p) = Some i" and "\<not> el_mutex (p_head p ! i)"
    and "epoll_ctl_ret E EPOLL_CTL_ADD d
           (p\<lparr>p_head := (p_head p)[i := (p_head p ! i)\<lparr>el_mutex := True, el_active := 1\<rparr>]\<rparr>) < 0"
  shows "\<exists>p' q. onion_poller_go E p d = Returns 1 p' \<and>
           onion_poller_remove E1 p' d = Blocks (El_mutex (el_addr (p_head p ! i))) q \<and>
           p_head q = take i (p_head p) @ drop (Suc i) (p_head p) \<and>
           calls q = calls p' \<and> p_n q = p_n p \<and> p_mutex q"
proof -
  let ?xs = "p_head p"
  let ?e = "(?xs ! i)\<lparr>el_mutex := True, el_active := 1\<rparr>"
  have i: "i < length ?xs" using find_fd_Some [OF assms(2)] by simp
  obtain p' where go: "onion_poller_go E p d = Returns 1 p'" and h: "p_head p' = ?xs[i := ?e]"
    and m: "\<not> p_mutex p'" and n: "p_n p' = p_n p"
    using assms i
    by (simp add: onion_poller_go_def onion_poller_find_fd_and_lock_def upd_el_def Let_def
        sys_def log_def)
  have fd: "find_fd d (p_head p') = Some i"
    using h i assms(2) by (simp add: find_fd_update)
  have lk: "el_mutex (p_head p' ! i)" and a: "el_addr (p_head p' ! i) = el_addr (?xs ! i)"
    using h i by simp_all
  from remove_locked_blocks [OF m fd lk, of E1] obtain q where
    q: "onion_poller_remove E1 p' d = Blocks (El_mutex (el_addr (p_head p' ! i))) q"
       "p_head q = take i (p_head p') @ drop (Suc i) (p_head p')"
       "calls q = calls p'" "p_n q = p_n p'" "p_mutex q"
    by blast
  have r: "onion_poller_remove E1 p' d = Blocks (El_mutex (el_addr (?xs ! i))) q"
    using q(1) a by simp
  have hq: "p_head q = take i ?xs @ drop (Suc i) ?xs" using q(2) h i by simp
  have nq: "p_n q = p_n p" using q(4) n by simp
  show ?thesis
    apply (rule exI [of _ p'])
    apply (rule exI [of _ q])
    using go r hq q(3) nq q(5) by (intro conjI) assumption+
qed

theorem remove_after_failed_go_blocks_witness:
  "\<not> p_mutex hooked_el \<and> find_fd 5 (p_head hooked_el) = Some 0 \<and>
   \<not> el_mutex (p_head hooked_el ! 0) \<and>
   epoll_ctl_ret failing EPOLL_CTL_ADD 5
     (hooked_el\<lparr>p_head := (p_head hooked_el)[0 := (p_head hooked_el ! 0)\<lparr>el_mutex := True,
                                                                          el_active := 1\<rparr>]\<rparr>) < 0 \<and>
   (\<exists>p' q. onion_poller_go failing hooked_el 5 = Returns 1 p' \<and>
          onion_poller_remove failing p' 5 = Blocks (El_mutex 1) q \<and>
          p_head q = [] \<and> p_n q = 1 \<and> p_mutex q \<and>
          calls q = calls p' \<and> Call_shutdown 8 2 \<notin> set (calls q))"
proof -
  have a: "\<not> p_mutex hooked_el" and b: "find_fd 5 (p_head hooked_el) = Some 0"
    and c: "\<not> el_mutex (p_head hooked_el ! 0)"
    and e: "epoll_ctl_ret failing EPOLL_CTL_ADD 5
              (hooked_el\<lparr>p_head := (p_head hooked_el)[0 := (p_head hooked_el ! 0)\<lparr>el_mutex := True,
                                                                          el_active := 1\<rparr>]\<rparr>) < 0"
    by (simp_all add: hooked_el_def failing_def)
  from remove_after_failed_go_blocks [OF a b c e, of failing] obtain p' q where
    g: "onion_poller_go failing hooked_el 5 = Returns 1 p'"
    and r: "onion_poller_remove failing p' 5 = Blocks (El_mutex (el_addr (p_head hooked_el ! 0))) q"
    and h: "p_head q = take 0 (p_head hooked_el) @ drop (Suc 0) (p_head hooked_el)"
    and cs: "calls q = calls p'" and n: "p_n q = p_n hooked_el" and m: "p_mutex q"
    by blast
  have r': "onion_poller_remove failing p' 5 = Blocks (El_mutex 1) q"
    using r by (simp add: hooked_el_def)
  have h': "p_head q = []" and n': "p_n q = 1" using h n by (simp_all add: hooked_el_def)
  have "calls p' = [Epoll_create 4 3,
          Epoll_ctl 3 EPOLL_CTL_ADD 5
            (Some \<lparr>ev_events = EPOLLIN OR EPOLLHUP OR EPOLLONESHOT, ev_ptr = 1\<rparr>) (- 1)]"
    using g
    by (auto simp: onion_poller_go_def onion_poller_find_fd_and_lock_def upd_el_def Let_def
        sys_def log_def hooked_el_def failing_def)
  then have nh: "Call_shutdown 8 2 \<notin> set (calls q)" using cs by simp
  have ex: "\<exists>p' q. onion_poller_go failing hooked_el 5 = Returns 1 p' \<and>
          onion_poller_remove failing p' 5 = Blocks (El_mutex 1) q \<and>
          p_head q = [] \<and> p_n q = 1 \<and> p_mutex q \<and>
          calls q = calls p' \<and> Call_shutdown 8 2 \<notin> set (calls q)"
    apply (rule exI [of _ p'])
    apply (rule exI [of _ q])
    using g r' h' n' m cs nh by (intro conjI) assumption+
  from a b c e ex show ?thesis by (intro conjI) assumption+
qed

end
